theory Spec2Isabelle
  imports Complex_Main "HOL-Library.Word" "HOL-Library.Multiset" "HOL-Library.Log_Nat"
begin

section \<open>Python values used by fashion\_ai\_v2.py\<close>

text \<open>
  A Python \<open>str\<close> is a sequence of Unicode code points; it is modelled as a list of
  natural numbers, one per code point. \<open>lit\<close> turns an ASCII literal of the source into
  such a list.
\<close>

type_synonym pystr = "nat list"

definition lit :: "string \<Rightarrow> pystr" where
  "lit s = map of_char s"

text \<open>
  A Python \<open>float\<close> is an IEEE-754 binary64 number. A finite one is modelled by the real
  number it denotes; every operation below rounds its exact result to the nearest
  binary64 number (\<open>fl\<close>). The zeros \<open>0.0\<close> and \<open>-0.0\<close>, which Python's comparisons
  do not tell apart, are the one value \<open>Fin 0\<close>. NaN and the two infinities are values
  of their own.
\<close>

datatype pyfloat = Fin real | PInf | NInf | NaN

text \<open>
  The values that \<open>st.secrets.get\<close> and \<open>r.json()\<close> can return: \<open>None\<close>, booleans,
  numbers, strings, lists and dictionaries (a dictionary as an association list in
  insertion order, looked up with \<open>map_of\<close>).
\<close>

datatype pyval =
    PNone
  | PBool bool
  | PInt int
  | PFloat pyfloat
  | PStr pystr
  | PList "pyval list"
  | PDict "(pystr \<times> pyval) list"

datatype exn =
    KeyError
  | TypeError
  | AttributeError
  | ConnectionError
  | JSONDecodeError
  | UnidentifiedImageError
  | RuntimeError
  | StreamlitError

text \<open>Truth value testing, as \<open>not x\<close> and \<open>x or y\<close> use it.\<close>

fun truthy :: "pyval \<Rightarrow> bool" where
  "truthy PNone = False"
| "truthy (PBool b) = b"
| "truthy (PInt i) = (i \<noteq> 0)"
| "truthy (PFloat f) = (f \<noteq> Fin 0)"
| "truthy (PStr s) = (s \<noteq> [])"
| "truthy (PList xs) = (xs \<noteq> [])"
| "truthy (PDict d) = (d \<noteq> [])"

definition py_or :: "pyval \<Rightarrow> pyval \<Rightarrow> pyval" where
  "py_or a b = (if truthy a then a else b)"

text \<open>\<open>obj[key]\<close> with a string key: only a dictionary accepts it.\<close>

fun getitem :: "pyval \<Rightarrow> pystr \<Rightarrow> exn + pyval" where
  "getitem (PDict d) k = (case map_of d k of None \<Rightarrow> Inl KeyError | Some v \<Rightarrow> Inr v)"
| "getitem PNone k = Inl TypeError"
| "getitem (PBool b) k = Inl TypeError"
| "getitem (PInt i) k = Inl TypeError"
| "getitem (PFloat f) k = Inl TypeError"
| "getitem (PStr s) k = Inl TypeError"
| "getitem (PList xs) k = Inl TypeError"

text \<open>\<open>obj.get(key, default)\<close>: only a dictionary has the method.\<close>

fun dict_get :: "pyval \<Rightarrow> pystr \<Rightarrow> pyval \<Rightarrow> exn + pyval" where
  "dict_get (PDict d) k dflt = Inr (case map_of d k of None \<Rightarrow> dflt | Some v \<Rightarrow> v)"
| "dict_get PNone k dflt = Inl AttributeError"
| "dict_get (PBool b) k dflt = Inl AttributeError"
| "dict_get (PInt i) k dflt = Inl AttributeError"
| "dict_get (PFloat f) k dflt = Inl AttributeError"
| "dict_get (PStr s) k dflt = Inl AttributeError"
| "dict_get (PList xs) k dflt = Inl AttributeError"

text \<open>
  \<open>for x in obj\<close>: a list yields its elements, a dictionary its keys, a string its
  characters; the other values are not iterable.
\<close>

fun py_iter :: "pyval \<Rightarrow> exn + pyval list" where
  "py_iter (PList xs) = Inr xs"
| "py_iter (PDict d) = Inr (map (\<lambda>kv. PStr (fst kv)) d)"
| "py_iter (PStr s) = Inr (map (\<lambda>c. PStr [c]) s)"
| "py_iter PNone = Inl TypeError"
| "py_iter (PBool b) = Inl TypeError"
| "py_iter (PInt i) = Inl TypeError"
| "py_iter (PFloat f) = Inl TypeError"

text \<open>Sequencing of computations that may raise: the first exception wins.\<close>

definition bindE :: "exn + 'a \<Rightarrow> ('a \<Rightarrow> exn + 'b) \<Rightarrow> exn + 'b" where
  "bindE m f = (case m of Inl e \<Rightarrow> Inl e | Inr v \<Rightarrow> f v)"

fun mapE :: "('a \<Rightarrow> exn + 'b) \<Rightarrow> 'a list \<Rightarrow> exn + 'b list" where
  "mapE f [] = Inr []"
| "mapE f (x # xs) =
     (case f x of
        Inl e \<Rightarrow> Inl e
      | Inr y \<Rightarrow> (case mapE f xs of Inl e \<Rightarrow> Inl e | Inr ys \<Rightarrow> Inr (y # ys)))"

subsection \<open>Strings: \<open>str.strip\<close> and \<open>str.split\<close>\<close>

text \<open>
  The code points for which \<open>str.isspace\<close> holds; \<open>str.strip()\<close> without an argument
  removes exactly these from both ends.
\<close>

definition py_isspace :: "nat \<Rightarrow> bool" where
  "py_isspace c \<longleftrightarrow>
     (9 \<le> c \<and> c \<le> 13) \<or> (28 \<le> c \<and> c \<le> 32) \<or> c = 133 \<or> c = 160 \<or> c = 5760
     \<or> (8192 \<le> c \<and> c \<le> 8202) \<or> c = 8232 \<or> c = 8233 \<or> c = 8239 \<or> c = 8287
     \<or> c = 12288"

definition py_strip :: "pystr \<Rightarrow> pystr" where
  "py_strip s = rev (dropWhile py_isspace (rev (dropWhile py_isspace s)))"

text \<open>
  \<open>s.split(sep)\<close> for a one-character separator: a left-to-right scan that closes the
  current piece at every separator. The empty string gives one empty piece.
\<close>

fun split_scan :: "nat \<Rightarrow> pystr \<Rightarrow> pystr \<Rightarrow> pystr list" where
  "split_scan sep cur [] = [rev cur]"
| "split_scan sep cur (c # cs) =
     (if c = sep then rev cur # split_scan sep [] cs else split_scan sep (c # cur) cs)"

definition py_split :: "nat \<Rightarrow> pystr \<Rightarrow> pystr list" where
  "py_split sep s = split_scan sep [] s"

definition comma :: nat where
  "comma = 44"

text \<open>\<open>sep.join(pieces)\<close>, the inverse of \<open>split\<close>; used to state what \<open>split\<close> returns.\<close>

fun py_join :: "nat \<Rightarrow> pystr list \<Rightarrow> pystr" where
  "py_join sep [] = []"
| "py_join sep [p] = p"
| "py_join sep (p # q # ps) = p @ sep # py_join sep (q # ps)"

subsection \<open>Floats: rounding to binary64, arithmetic, comparison, \<open>round\<close>\<close>

text \<open>
  \<open>pow2 e\<close> is \<open>2\<close> to the power \<open>e\<close>, for an integer \<open>e\<close> of either sign. \<open>ilog2 x\<close> is
  the exponent of a positive \<open>x\<close>: the integer \<open>e\<close> with \<open>2^e \<le> x < 2^(e+1)\<close>, computed
  from the number of bits of \<open>\<lfloor>x\<rfloor>\<close>, or of \<open>\<lceil>1/x\<rceil> - 1\<close> when \<open>x < 1\<close>.
\<close>

definition pow2 :: "int \<Rightarrow> real" where
  "pow2 e = (if 0 \<le> e then 2 ^ nat e else 1 / 2 ^ nat (- e))"

definition ilog2 :: "real \<Rightarrow> int" where
  "ilog2 x = (if 1 \<le> x then bitlen \<lfloor>x\<rfloor> - 1 else - bitlen (\<lceil>1 / x\<rceil> - 1))"

text \<open>Rounding to the nearest integer, a tie going to the even one.\<close>

definition round_half_even :: "real \<Rightarrow> int" where
  "round_half_even y =
     (let f = \<lfloor>y\<rfloor>; d = y - of_int f
      in if d < 1 / 2 then f else if 1 / 2 < d then f + 1 else if even f then f else f + 1)"

text \<open>
  The binary64 numbers near \<open>x\<close> are the multiples of \<open>2^(e - 52)\<close>, where \<open>e\<close> is the
  exponent of \<open>x\<close>, and of \<open>2^(-1074)\<close> in the subnormal range. \<open>round_to_double\<close> is the
  nearest of them, a tie going to the even multiple; \<open>fl\<close> is the result of an
  operation whose exact value is \<open>x\<close>: an infinity when the rounded value reaches
  \<open>2^1024\<close>.
\<close>

definition ulp_exponent :: "real \<Rightarrow> int" where
  "ulp_exponent x = max (ilog2 \<bar>x\<bar> - 52) (- 1074)"

definition round_to_double :: "real \<Rightarrow> real" where
  "round_to_double x =
     (if x = 0 then 0
      else of_int (round_half_even (x / pow2 (ulp_exponent x))) * pow2 (ulp_exponent x))"

definition fl :: "real \<Rightarrow> pyfloat" where
  "fl x =
     (let r = round_to_double x
      in if 2 ^ 1024 \<le> r then PInf else if r \<le> - (2 ^ 1024) then NInf else Fin r)"

fun fmul :: "pyfloat \<Rightarrow> pyfloat \<Rightarrow> pyfloat" where
  "fmul (Fin a) (Fin b) = fl (a * b)"
| "fmul NaN y = NaN"
| "fmul (Fin a) NaN = NaN"
| "fmul PInf NaN = NaN"
| "fmul NInf NaN = NaN"
| "fmul (Fin a) PInf = (if a = 0 then NaN else if 0 < a then PInf else NInf)"
| "fmul (Fin a) NInf = (if a = 0 then NaN else if 0 < a then NInf else PInf)"
| "fmul PInf (Fin b) = (if b = 0 then NaN else if 0 < b then PInf else NInf)"
| "fmul NInf (Fin b) = (if b = 0 then NaN else if 0 < b then NInf else PInf)"
| "fmul PInf PInf = PInf"
| "fmul PInf NInf = NInf"
| "fmul NInf PInf = NInf"
| "fmul NInf NInf = PInf"

fun fadd :: "pyfloat \<Rightarrow> pyfloat \<Rightarrow> pyfloat" where
  "fadd (Fin a) (Fin b) = fl (a + b)"
| "fadd NaN y = NaN"
| "fadd (Fin a) NaN = NaN"
| "fadd PInf NaN = NaN"
| "fadd NInf NaN = NaN"
| "fadd (Fin a) PInf = PInf"
| "fadd (Fin a) NInf = NInf"
| "fadd PInf (Fin b) = PInf"
| "fadd NInf (Fin b) = NInf"
| "fadd PInf PInf = PInf"
| "fadd PInf NInf = NaN"
| "fadd NInf PInf = NaN"
| "fadd NInf NInf = NInf"

text \<open>\<open>x < y\<close> and \<open>x >= y\<close> on floats: every comparison with NaN is false.\<close>

fun py_lt :: "pyfloat \<Rightarrow> pyfloat \<Rightarrow> bool" where
  "py_lt (Fin a) (Fin b) = (a < b)"
| "py_lt NaN y = False"
| "py_lt (Fin a) NaN = False"
| "py_lt PInf NaN = False"
| "py_lt NInf NaN = False"
| "py_lt (Fin a) PInf = True"
| "py_lt (Fin a) NInf = False"
| "py_lt PInf (Fin b) = False"
| "py_lt NInf (Fin b) = True"
| "py_lt PInf PInf = False"
| "py_lt PInf NInf = False"
| "py_lt NInf PInf = True"
| "py_lt NInf NInf = False"

definition py_ge :: "pyfloat \<Rightarrow> pyfloat \<Rightarrow> bool" where
  "py_ge x y \<longleftrightarrow> x \<noteq> NaN \<and> y \<noteq> NaN \<and> \<not> py_lt x y"

definition is_finite :: "pyfloat \<Rightarrow> bool" where
  "is_finite x = (case x of Fin r \<Rightarrow> True | PInf \<Rightarrow> False | NInf \<Rightarrow> False | NaN \<Rightarrow> False)"

text \<open>
  \<open>round(x, ndigits)\<close> on a float, for \<open>ndigits \<ge> 0\<close>: NaN and the infinities round to
  themselves; a finite value is converted to the nearest decimal with \<open>ndigits\<close> digits
  after the point, a tie going to the even last digit, and the decimal is converted
  back to the nearest float.
\<close>

fun py_round :: "pyfloat \<Rightarrow> nat \<Rightarrow> pyfloat" where
  "py_round (Fin x) ndigits = fl (of_int (round_half_even (x * 10 ^ ndigits)) / 10 ^ ndigits)"
| "py_round PInf ndigits = PInf"
| "py_round NInf ndigits = NInf"
| "py_round NaN ndigits = NaN"

text \<open>
  The logit is an element of a float32 tensor: a sign bit, 8 bits of exponent and 23
  bits of fraction. \<open>item\<close> is \<open>tensor.item()\<close>, the Python float of the same value.
\<close>

datatype float32 = Float32 bool "8 word" "23 word"

fun item :: "float32 \<Rightarrow> pyfloat" where
  "item (Float32 s e f) =
     (if e = 255 then (if f = 0 then (if s then NInf else PInf) else NaN)
      else
        Fin ((if s then - 1 else 1) *
             (if e = 0 then real (unat f) * pow2 (- 149)
              else (2 ^ 23 + real (unat f)) * pow2 (int (unat e) - 150))))"

section \<open>The environment and the state of a script run\<close>

text \<open>
  What the script sees of the outside is a parameter of the model:
  \<^item> \<open>access_key\<close>: the value of \<open>st.secrets.get("UNSPLASH_ACCESS_KEY")\<close>, \<open>PNone\<close>
    when the secret is missing;
  \<^item> \<open>search_photos\<close>: \<open>requests.get\<close> on the search endpoint, given the moment of the
    call, the query, \<open>per_page\<close> and the \<open>client_id\<close>; it raises or returns a response;
  \<^item> \<open>get_content\<close>: \<open>requests.get(image_url, timeout=10).content\<close>;
  \<^item> \<open>open_rgb\<close>: \<open>Image.open(BytesIO(content)).convert("RGB")\<close>;
  \<^item> \<open>clip_logit\<close>: the processor and the forward pass of the model with the prompt
    "beautiful aesthetic fashion photo"; the result is the one element of
    \<open>logits_per_image\<close>;
  \<^item> \<open>st_image\<close>: whether \<open>st.image\<close> raises for a given first argument (it does
    for a value that is neither a URL nor a readable file);
  \<^item> \<open>clip_load\<close>: \<open>load_clip_model()\<close>, which may raise;
  \<^item> \<open>random_bits\<close>: the 53-bit integers that the generator behind \<open>random.random()\<close>
    produces, in order.
  The moment of a call is the number of events of the run so far, so the answers of the
  network may change during a run.
\<close>

type_synonym bytes = "8 word list"

type_synonym rgb_image = "(8 word \<times> 8 word \<times> 8 word) list"

record response =
  status_code :: int
  json_body :: "pyval option"

record world =
  access_key :: pyval
  search_photos :: "nat \<Rightarrow> pystr \<Rightarrow> int \<Rightarrow> pyval \<Rightarrow> exn + response"
  get_content :: "nat \<Rightarrow> pyval \<Rightarrow> exn + bytes"
  open_rgb :: "bytes \<Rightarrow> exn + rgb_image"
  clip_logit :: "rgb_image \<Rightarrow> exn + float32"
  st_image :: "pyval \<Rightarrow> exn option"
  clip_load :: "exn option"
  random_bits :: "nat \<Rightarrow> 53 word"

text \<open>
  The effects of a run are recorded as events, in order. The messages that the source
  builds with f-strings are kept as their parts: the header of a topic carries the topic,
  a rendered image carries its url, score, author and link.
\<close>

datatype event =
    StError pystr
  | StWarningStatus pystr int
  | StWarningNoImages pystr
  | StInfo pystr
  | StSuccess "pystr list"
  | StHeader pystr
  | StImage pyval pyfloat pyval pyval
  | SearchRequest pystr int pyval
  | ImageRequest pyval
  | LoadModel

record state =
  trace :: "event list"
  rng_pos :: nat

definition emit :: "event \<Rightarrow> state \<Rightarrow> state" where
  "emit e s = s\<lparr>trace := trace s @ [e]\<rparr>"

definition is_network :: "event \<Rightarrow> bool" where
  "is_network e =
     (case e of
        SearchRequest q n k \<Rightarrow> True
      | ImageRequest u \<Rightarrow> True
      | LoadModel \<Rightarrow> True
      | StError m \<Rightarrow> False
      | StWarningStatus q c \<Rightarrow> False
      | StWarningNoImages t \<Rightarrow> False
      | StInfo m \<Rightarrow> False
      | StSuccess ts \<Rightarrow> False
      | StHeader t \<Rightarrow> False
      | StImage u v a l \<Rightarrow> False)"

definition is_image :: "event \<Rightarrow> bool" where
  "is_image e =
     (case e of
        StImage u v a l \<Rightarrow> True
      | SearchRequest q n k \<Rightarrow> False
      | ImageRequest u \<Rightarrow> False
      | LoadModel \<Rightarrow> False
      | StError m \<Rightarrow> False
      | StWarningStatus q c \<Rightarrow> False
      | StWarningNoImages t \<Rightarrow> False
      | StInfo m \<Rightarrow> False
      | StSuccess ts \<Rightarrow> False
      | StHeader t \<Rightarrow> False)"

text \<open>
  \<open>random.random()\<close>, and \<open>random.uniform(a, b) = a + (b - a) * random()\<close> for integer
  arguments: the difference is an integer, the product and the sum are floats.
\<close>

definition py_random :: "world \<Rightarrow> state \<Rightarrow> real \<times> state" where
  "py_random w s =
     (real (unat (random_bits w (rng_pos s))) / 2 ^ 53, s\<lparr>rng_pos := Suc (rng_pos s)\<rparr>)"

definition random_uniform :: "world \<Rightarrow> int \<Rightarrow> int \<Rightarrow> state \<Rightarrow> pyfloat \<times> state" where
  "random_uniform w a b s =
     (case py_random w s of
        (r, s') \<Rightarrow> (fadd (Fin (of_int a)) (fmul (Fin (of_int (b - a))) (Fin r)), s'))"

section \<open>Topic selection\<close>

definition FASHION_TOPICS :: "pystr list" where
  "FASHION_TOPICS =
     [lit ''street style'', lit ''runway fashion'', lit ''outfit of the day'',
      lit ''minimalist fashion'', lit ''vintage style'', lit ''haute couture'',
      lit ''sustainable fashion'', lit ''summer looks'', lit ''winter outfits'',
      lit ''editorial fashion'']"

text \<open>
  \<open>custom_topics = [t.strip() for t in custom_text.split(",") if t.strip()]\<close> and
  \<open>selected_topics = predefined + custom_topics\<close>, where \<open>predefined\<close> is what the
  multiselect over \<open>FASHION_TOPICS\<close> returns.
\<close>

definition custom_topics :: "pystr \<Rightarrow> pystr list" where
  "custom_topics custom_text =
     map py_strip (filter (\<lambda>t. py_strip t \<noteq> []) (py_split comma custom_text))"

definition selected_topics :: "pystr list \<Rightarrow> pystr \<Rightarrow> pystr list" where
  "selected_topics predefined custom_text = predefined @ custom_topics custom_text"

section \<open>Image fetching\<close>

record image_record =
  title :: pyval
  url :: pyval
  author :: pyval
  link :: pyval
  score :: "pyfloat option"

text \<open>
  One element of the list comprehension of \<open>fetch_unsplash_images\<close>: the four items of
  the dictionary are evaluated in the order of the source, and the first subscript that
  fails raises. The key \<open>"score"\<close> is absent until the scoring loop stores it.
\<close>

definition make_record :: "pyval \<Rightarrow> exn + image_record" where
  "make_record img =
     bindE (getitem img (lit ''alt_description'')) (\<lambda>alt.
     bindE (bindE (getitem img (lit ''urls'')) (\<lambda>us. getitem us (lit ''regular''))) (\<lambda>u.
     bindE (bindE (getitem img (lit ''user'')) (\<lambda>us. getitem us (lit ''name''))) (\<lambda>a.
     bindE (bindE (getitem img (lit ''links'')) (\<lambda>ls. getitem ls (lit ''html''))) (\<lambda>l.
       Inr \<lparr>title = py_or alt (PStr (lit ''Untitled'')), url = u, author = a, link = l,
            score = None\<rparr>))))"

text \<open>\<open>data.get("results", [])\<close>, iterated by the comprehension.\<close>

definition response_results :: "pyval \<Rightarrow> exn + pyval list" where
  "response_results data = bindE (dict_get data (lit ''results'') (PList [])) py_iter"

text \<open>
  The body of \<open>fetch_unsplash_images(query, count)\<close> (\<open>cnt\<close> stands for \<open>count\<close>), as it runs when \<open>st.cache_data\<close>
  does not answer from its cache. The memoisation itself is not modelled.
\<close>

definition fetch_unsplash_images ::
  "world \<Rightarrow> state \<Rightarrow> pystr \<Rightarrow> int \<Rightarrow> (exn + image_record list) \<times> state" where
  "fetch_unsplash_images w s query cnt =
     (if \<not> truthy (access_key w)
      then (Inr [], emit (StError (lit ''Missing Unsplash API key.'')) s)
      else
        (let s1 = emit (SearchRequest query cnt (access_key w)) s in
         case search_photos w (length (trace s)) query cnt (access_key w) of
           Inl e \<Rightarrow> (Inl e, s1)
         | Inr r \<Rightarrow>
             if status_code r \<noteq> 200
             then (Inr [], emit (StWarningStatus query (status_code r)) s1)
             else
               (case json_body r of
                  None \<Rightarrow> (Inl JSONDecodeError, s1)
                | Some data \<Rightarrow>
                    (bindE (response_results data) (mapE make_record), s1))))"

section \<open>Aesthetic scoring\<close>

text \<open>
  The first four statements of the \<open>try\<close> block of \<open>compute_aesthetic_score\<close>: download,
  decode, forward pass, \<open>.item()\<close>. The result is the extracted logit, or the exception
  raised.
\<close>

definition raw_logit :: "world \<Rightarrow> nat \<Rightarrow> pyval \<Rightarrow> exn + pyfloat" where
  "raw_logit w t image_url =
     bindE (get_content w t image_url) (\<lambda>content.
     bindE (open_rgb w content) (\<lambda>image.
     bindE (clip_logit w image) (\<lambda>logit. Inr (item logit))))"

text \<open>The whole \<open>try\<close> block: \<open>return round(5 + score * 2.5, 2)\<close>.\<close>

definition try_score :: "world \<Rightarrow> nat \<Rightarrow> pyval \<Rightarrow> exn + pyfloat" where
  "try_score w t image_url =
     bindE (raw_logit w t image_url)
       (\<lambda>sc. Inr (py_round (fadd (Fin 5) (fmul sc (Fin (5 / 2)))) 2))"

text \<open>\<open>try: ... except Exception: return random.uniform(3,7)\<close>.\<close>

definition compute_aesthetic_score :: "world \<Rightarrow> state \<Rightarrow> pyval \<Rightarrow> pyfloat \<times> state" where
  "compute_aesthetic_score w s image_url =
     (let s1 = emit (ImageRequest image_url) s in
      case try_score w (length (trace s)) image_url of
        Inr v \<Rightarrow> (v, s1)
      | Inl e \<Rightarrow> random_uniform w 3 7 s1)"

section \<open>The per-topic pass: score, rank, display\<close>

text \<open>\<open>for img in images: img["score"] = compute_aesthetic_score(model, processor, img["url"])\<close>\<close>

fun score_all :: "world \<Rightarrow> state \<Rightarrow> image_record list \<Rightarrow> image_record list \<times> state" where
  "score_all w s [] = ([], s)"
| "score_all w s (img # imgs) =
     (case compute_aesthetic_score w s (url img) of
        (v, s1) \<Rightarrow>
          (case score_all w s1 imgs of
             (rest, s2) \<Rightarrow> (img\<lparr>score := Some v\<rparr> # rest, s2)))"

text \<open>
  \<open>sorted(xs, key=..., reverse=True)\<close>. The keys are computed first, in order; the list
  is reversed, sorted ascending and stably with \<open><\<close> as the only comparison, and reversed
  again. On keys without NaN every stable sort returns the same list, so the stable
  merge sort of the interpreter is written as a stable insertion sort. With a NaN among
  the keys the order that the interpreter returns depends on its algorithm and is not
  modelled: the theorems about the order of \<open>py_sorted\<close> are stated for keys without NaN.
\<close>

fun insort_lt :: "pyfloat \<times> 'a \<Rightarrow> (pyfloat \<times> 'a) list \<Rightarrow> (pyfloat \<times> 'a) list" where
  "insort_lt x [] = [x]"
| "insort_lt x (y # ys) = (if py_lt (fst y) (fst x) then y # insort_lt x ys else x # y # ys)"

definition stable_sort :: "(pyfloat \<times> 'a) list \<Rightarrow> (pyfloat \<times> 'a) list" where
  "stable_sort ps = foldr insort_lt ps []"

definition py_sorted :: "('a \<Rightarrow> exn + pyfloat) \<Rightarrow> bool \<Rightarrow> 'a list \<Rightarrow> exn + 'a list" where
  "py_sorted key reverse xs =
     (case mapE key xs of
        Inl e \<Rightarrow> Inl e
      | Inr ks \<Rightarrow>
          Inr (map snd
            (if reverse then rev (stable_sort (rev (zip ks xs))) else stable_sort (zip ks xs))))"

text \<open>\<open>lambda x: x["score"]\<close>\<close>

definition score_key :: "image_record \<Rightarrow> exn + pyfloat" where
  "score_key img = (case score img of None \<Rightarrow> Inl KeyError | Some v \<Rightarrow> Inr v)"

definition rank :: "image_record list \<Rightarrow> exn + image_record list" where
  "rank images = py_sorted score_key True images"

text \<open>
  \<open>for img in ranked[:5]: st.image(img["url"], caption=...)\<close>. The caption reads the
  score, the author and the link of the record; \<open>st.image\<close> is outside any \<open>try\<close>, so
  when it raises the loop ends there and the image is not rendered.
\<close>

definition image_event :: "image_record \<Rightarrow> exn + event" where
  "image_event img =
     (case score img of
        None \<Rightarrow> Inl KeyError
      | Some v \<Rightarrow> Inr (StImage (url img) v (author img) (link img)))"

fun st_images :: "world \<Rightarrow> image_record list \<Rightarrow> state \<Rightarrow> (exn + unit) \<times> state" where
  "st_images w [] s = (Inr (), s)"
| "st_images w (img # imgs) s =
     (case image_event img of
        Inl e \<Rightarrow> (Inl e, s)
      | Inr ev \<Rightarrow>
          (case st_image w (url img) of
             Some e \<Rightarrow> (Inl e, s)
           | None \<Rightarrow> st_images w imgs (emit ev s)))"

text \<open>The body of \<open>for topic in selected_topics\<close>.\<close>

definition process_topic :: "world \<Rightarrow> state \<Rightarrow> pystr \<Rightarrow> (exn + unit) \<times> state" where
  "process_topic w s topic =
     (case fetch_unsplash_images w (emit (StHeader topic) s) topic 10 of
        (Inl e, s2) \<Rightarrow> (Inl e, s2)
      | (Inr images, s2) \<Rightarrow>
          if images = [] then (Inr (), emit (StWarningNoImages topic) s2)
          else
            (case score_all w s2 images of
               (scored, s3) \<Rightarrow>
                 (case rank scored of
                    Inl e \<Rightarrow> (Inl e, s3)
                  | Inr ranked \<Rightarrow> st_images w (take 5 ranked) s3)))"

fun process_topics :: "world \<Rightarrow> state \<Rightarrow> pystr list \<Rightarrow> (exn + unit) \<times> state" where
  "process_topics w s [] = (Inr (), s)"
| "process_topics w s (topic # topics) =
     (case process_topic w s topic of
        (Inl e, s') \<Rightarrow> (Inl e, s')
      | (Inr u, s') \<Rightarrow> process_topics w s' topics)"

section \<open>The script\<close>

datatype outcome = Completed | Stopped | Crashed exn

text \<open>
  One run of the script from the line that builds \<open>selected_topics\<close>, in the state \<open>s\<close>
  that the page header and the two input widgets have left: \<open>st.stop()\<close> ends the run,
  an exception that nothing catches ends it too. The two messages start with the code
  points U+1F446 (128070) and U+2705 (9989).
\<close>

definition run :: "world \<Rightarrow> state \<Rightarrow> pystr list \<Rightarrow> pystr \<Rightarrow> outcome \<times> state" where
  "run w s predefined custom_text =
     (let topics = selected_topics predefined custom_text in
      if topics = []
      then (Stopped,
            emit (StInfo (128070 # lit '' Choose at least one theme or enter your own keywords.''))
              s)
      else
        (let s1 = emit LoadModel (emit (StSuccess topics) s) in
         case clip_load w of
           Some e \<Rightarrow> (Crashed e, s1)
         | None \<Rightarrow>
             (case process_topics w s1 topics of
                (Inl e, s2) \<Rightarrow> (Crashed e, s2)
              | (Inr u, s2) \<Rightarrow>
                  (Completed,
                   emit (StInfo (9989 #
                     lit '' Powered by Unsplash + CLIP aesthetic scoring (fully local & free).''))
                     s2))))"

section \<open>Example environments\<close>

text \<open>
  Concrete inputs on which the theorems below are evaluated: a search result with a given
  \<open>alt_description\<close> and image url, and an environment whose search endpoint answers 200
  with a given list of results, whose downloads return the code points of the url as
  bytes, whose decoder makes one grey pixel of each byte, whose \<open>st.image\<close> raises
  unless its argument is a string that starts with "https://", and whose random
  generator returns \<open>0.5\<close> every time; the record that the fetch makes of such a result,
  before and after scoring; a model whose logit is \<open>2^n\<close> for an image of \<open>n\<close> pixels;
  six urls of lengths 11 to 16; the float32 numbers \<open>2^(-10)\<close>, \<open>-2.25\<close> and \<open>2^60\<close>,
  and a float32 NaN.
\<close>

definition photo :: "pyval \<Rightarrow> pystr \<Rightarrow> pyval" where
  "photo alt u =
     PDict [(lit ''alt_description'', alt),
            (lit ''urls'', PDict [(lit ''regular'', PStr u)]),
            (lit ''user'', PDict [(lit ''name'', PStr (lit ''ann''))]),
            (lit ''links'', PDict [(lit ''html'', PStr (lit ''page''))])]"

definition example_world ::
  "pyval \<Rightarrow> pyval list \<Rightarrow> (rgb_image \<Rightarrow> exn + float32) \<Rightarrow> world" where
  "example_world key results logit =
     \<lparr>access_key = key,
      search_photos = (\<lambda>t q n k.
        Inr \<lparr>status_code = 200, json_body = Some (PDict [(lit ''results'', PList results)])\<rparr>),
      get_content = (\<lambda>t u.
        case u of
          PStr s \<Rightarrow> Inr (map of_nat s)
        | PNone \<Rightarrow> Inl ConnectionError
        | PBool b \<Rightarrow> Inl ConnectionError
        | PInt i \<Rightarrow> Inl ConnectionError
        | PFloat f \<Rightarrow> Inl ConnectionError
        | PList xs \<Rightarrow> Inl ConnectionError
        | PDict d \<Rightarrow> Inl ConnectionError),
      open_rgb = (\<lambda>b. Inr (map (\<lambda>x. (x, x, x)) b)),
      clip_logit = logit,
      st_image = (\<lambda>u.
        case u of
          PStr s \<Rightarrow> if take 8 s = lit ''https://'' then None else Some StreamlitError
        | PNone \<Rightarrow> Some StreamlitError
        | PBool b \<Rightarrow> Some StreamlitError
        | PInt i \<Rightarrow> Some StreamlitError
        | PFloat f \<Rightarrow> Some StreamlitError
        | PList xs \<Rightarrow> Some StreamlitError
        | PDict d \<Rightarrow> Some StreamlitError),
      clip_load = None,
      random_bits = (\<lambda>n. 2 ^ 52)\<rparr>"

definition init :: state where
  "init = \<lparr>trace = [], rng_pos = 0\<rparr>"

definition fetched_photo :: "pystr \<Rightarrow> image_record" where
  "fetched_photo u =
     \<lparr>title = PStr (lit ''Untitled''), url = PStr u, author = PStr (lit ''ann''),
      link = PStr (lit ''page''), score = None\<rparr>"

definition scored_photo :: "pystr \<Rightarrow> pyfloat \<Rightarrow> image_record" where
  "scored_photo u v = (fetched_photo u)\<lparr>score := Some v\<rparr>"

definition length_logit :: "rgb_image \<Rightarrow> exn + float32" where
  "length_logit pixels = Inr (Float32 False (of_nat (127 + length pixels)) 0)"

definition six_urls :: "pystr list" where
  "six_urls =
     [lit ''https://x/a'', lit ''https://x/bb'', lit ''https://x/ccc'', lit ''https://x/dddd'',
      lit ''https://x/eeeee'', lit ''https://x/ffffff'']"

definition f32_1024th :: float32 where
  "f32_1024th = Float32 False 117 0"

definition f32_minus_2_25 :: float32 where
  "f32_minus_2_25 = Float32 True 128 1048576"

definition f32_2_60 :: float32 where
  "f32_2_60 = Float32 False 187 0"

definition f32_nan :: float32 where
  "f32_nan = Float32 False 255 4194304"

section \<open>Auxiliary notions for the proofs\<close>

text \<open>A list of keyed items is ascending when no later key is below an earlier one.\<close>

definition ascending :: "(pyfloat \<times> 'a) list \<Rightarrow> bool" where
  "ascending ps = sorted_wrt (\<lambda>x y. \<not> py_lt (fst y) (fst x)) ps"

section \<open>Properties of the topic selection\<close>

subsection \<open>\<open>split\<close> and \<open>strip\<close>\<close>

lemma split_scan_acc:
  "split_scan sep cur cs = (rev cur @ hd (split_scan sep [] cs)) # tl (split_scan sep [] cs)"
proof (induction cs arbitrary: cur)
  case Nil
  show ?case by simp
next
  case (Cons c cs)
  show ?case
  proof (cases "c = sep")
    case True
    then show ?thesis by simp
  next
    case False
    have "split_scan sep cur (c # cs) = split_scan sep (c # cur) cs" using False by simp
    also have "\<dots> = (rev (c # cur) @ hd (split_scan sep [] cs)) # tl (split_scan sep [] cs)"
      by (rule Cons.IH)
    also have "\<dots> = (rev cur @ hd (split_scan sep [c] cs)) # tl (split_scan sep [c] cs)"
      using Cons.IH [of "[c]"] by simp
    finally show ?thesis using False by simp
  qed
qed

lemma py_split_Nil: "py_split sep [] = [[]]"
  by (simp add: py_split_def)

lemma py_split_Cons:
  "py_split sep (c # cs) =
     (if c = sep then [] # py_split sep cs
      else (c # hd (py_split sep cs)) # tl (py_split sep cs))"
  using split_scan_acc [of sep "[c]" cs] by (simp add: py_split_def)

lemma py_split_not_Nil: "py_split sep s \<noteq> []"
  by (cases s) (simp_all add: py_split_Nil py_split_Cons)

lemma py_split_no_sep: "p \<in> set (py_split sep s) \<Longrightarrow> sep \<notin> set p"
proof (induction s arbitrary: p)
  case Nil
  then show ?case by (simp add: py_split_Nil)
next
  case (Cons c cs)
  obtain q qs where q: "py_split sep cs = q # qs"
    using py_split_not_Nil [of sep cs] by (cases "py_split sep cs") auto
  show ?case
  proof (cases "c = sep")
    case True
    with Cons show ?thesis by (auto simp: py_split_Cons)
  next
    case False
    with Cons.prems q have "p = c # q \<or> p \<in> set qs" by (auto simp: py_split_Cons)
    then show ?thesis
    proof
      assume "p = c # q"
      moreover have "sep \<notin> set q" using Cons.IH [of q] q by simp
      ultimately show ?thesis using False by auto
    next
      assume "p \<in> set qs"
      then show ?thesis using Cons.IH [of p] q by simp
    qed
  qed
qed

lemma py_split_join: "py_join sep (py_split sep s) = s"
proof (induction s)
  case Nil
  show ?case by (simp add: py_split_Nil)
next
  case (Cons c cs)
  obtain q qs where q: "py_split sep cs = q # qs"
    using py_split_not_Nil [of sep cs] by (cases "py_split sep cs") auto
  show ?case using Cons.IH q by (cases qs) (auto simp: py_split_Cons)
qed

lemma py_strip_no_space_ends:
  assumes "py_strip s \<noteq> []"
  shows "\<not> py_isspace (hd (py_strip s))" and "\<not> py_isspace (last (py_strip s))"
proof -
  let ?d = "dropWhile py_isspace s"
  let ?r = "dropWhile py_isspace (rev ?d)"
  have r: "?r \<noteq> []" using assms by (simp add: py_strip_def)
  have "\<not> py_isspace (hd ?r)" using r by (rule hd_dropWhile)
  then show "\<not> py_isspace (last (py_strip s))"
    using r by (simp add: py_strip_def last_rev)
  have d: "?d \<noteq> []"
  proof
    assume "?d = []"
    then show False using r by (auto dest: set_dropWhileD)
  qed
  have hd_d: "\<not> py_isspace (hd ?d)" using d by (rule hd_dropWhile)
  have "last (rev ?d) = hd ?d" using d by (simp add: last_rev)
  have "hd (rev ?r) = last ?r" using r by (simp add: hd_rev)
  also have "\<dots> = last (rev ?d)" using r
    by (metis dropWhile_eq_Nil_conv last_appendR takeWhile_dropWhile_id)
  also have "\<dots> = hd ?d" using d by (simp add: last_rev)
  finally show "\<not> py_isspace (hd (py_strip s))" using hd_d by (simp add: py_strip_def)
qed

lemma set_py_strip: "x \<in> set (py_strip s) \<Longrightarrow> x \<in> set s"
  by (auto simp: py_strip_def dest!: set_dropWhileD)

lemma custom_topics_set:
  "set (custom_topics text) = {py_strip t |t. t \<in> set (py_split comma text) \<and> py_strip t \<noteq> []}"
  by (auto simp: custom_topics_def)

lemma custom_topics_trimmed:
  assumes "t \<in> set (custom_topics text)"
  shows "t \<noteq> [] \<and> \<not> py_isspace (hd t) \<and> \<not> py_isspace (last t) \<and> comma \<notin> set t"
proof -
  obtain p where p: "p \<in> set (py_split comma text)" "py_strip p \<noteq> []" "t = py_strip p"
    using assms by (auto simp: custom_topics_def)
  have "comma \<notin> set p" using p(1) by (rule py_split_no_sep)
  then have "comma \<notin> set t" using set_py_strip [of comma p] p(3) by blast
  then show ?thesis using py_strip_no_space_ends [OF p(2)] p(2,3) by simp
qed

subsection \<open>The selected topics\<close>

lemmas topic_eval =
  selected_topics_def custom_topics_def py_split_def py_strip_def py_isspace_def lit_def comma_def

text \<open>
  C1, as the spec states it: the output of the topic selector is a deduplicated union.
  It is not: with the predefined topic "street style" selected and the same words typed
  into the free-text field, the topic is in the output twice.
\<close>

theorem selected_topics_duplicate:
  "lit ''street style'' \<in> set FASHION_TOPICS \<and>
   selected_topics [lit ''street style''] (lit ''street style'') =
     [lit ''street style'', lit ''street style''] \<and>
   \<not> distinct (selected_topics [lit ''street style''] (lit ''street style''))"
  by (simp add: topic_eval FASHION_TOPICS_def)

text \<open>
  C1, amended: the output is the list of the selected predefined topics followed by the
  parsed free-text topics, duplicates kept. Its set of elements is the union of the
  selected predefined topics and of the non-empty trimmed pieces between the commas of
  the free text; every parsed free-text topic is non-empty, starts and ends with a
  character that is not whitespace, and has no comma.
\<close>

theorem selected_topics_concat:
  "selected_topics predefined custom_text = predefined @ custom_topics custom_text \<and>
   set (selected_topics predefined custom_text) =
     set predefined \<union>
       {py_strip t |t. t \<in> set (py_split comma custom_text) \<and> py_strip t \<noteq> []} \<and>
   (\<forall>t \<in> set (custom_topics custom_text).
      t \<noteq> [] \<and> \<not> py_isspace (hd t) \<and> \<not> py_isspace (last t) \<and> comma \<notin> set t)"
  using custom_topics_trimmed [of _ custom_text]
  by (simp add: selected_topics_def custom_topics_set)

theorem selected_topics_concat_witness:
  "selected_topics [lit ''street style''] (lit '' boho , ,street style'') =
     [lit ''street style'', lit ''boho'', lit ''street style''] \<and>
   lit ''boho'' \<in> set (custom_topics (lit '' boho , ,street style'')) \<and>
   \<not> py_isspace (hd (lit ''boho''))"
  using selected_topics_concat [of "[lit ''street style'']" "lit '' boho , ,street style''"]
  by (simp add: topic_eval)

subsection \<open>The empty selection\<close>

lemma py_strip_Nil_iff: "py_strip p = [] \<longleftrightarrow> (\<forall>c\<in>set p. py_isspace c)"
proof
  assume "py_strip p = []"
  then have a: "\<forall>x\<in>set (dropWhile py_isspace p). py_isspace x"
    by (simp add: py_strip_def dropWhile_eq_Nil_conv)
  have "dropWhile py_isspace p = []"
  proof (rule ccontr)
    assume ne: "dropWhile py_isspace p \<noteq> []"
    then have "\<not> py_isspace (hd (dropWhile py_isspace p))" by (rule hd_dropWhile)
    moreover have "hd (dropWhile py_isspace p) \<in> set (dropWhile py_isspace p)"
      using ne by (rule hd_in_set)
    ultimately show False using a by blast
  qed
  then show "\<forall>c\<in>set p. py_isspace c" by (simp add: dropWhile_eq_Nil_conv)
next
  assume "\<forall>c\<in>set p. py_isspace c"
  then have "dropWhile py_isspace p = []" by (simp only: dropWhile_eq_Nil_conv)
  then show "py_strip p = []" by (simp only: py_strip_def rev.simps dropWhile.simps)
qed

lemma selected_topics_empty_iff:
  "selected_topics predefined custom_text = [] \<longleftrightarrow>
     predefined = [] \<and> (\<forall>p\<in>set (py_split comma custom_text). \<forall>c\<in>set p. py_isspace c)"
  by (simp add: selected_topics_def custom_topics_def filter_empty_conv py_strip_Nil_iff)

text \<open>
  C8: when no predefined topic is selected and the free text yields no topic, the run
  stops at \<open>st.stop()\<close> after one event, the prompt to the user. No header of a
  topic, no search request, no image request, no model load, no rendered image is in
  the trace: no fetch, scoring or ranking has run, and no network call was made.
\<close>

theorem empty_selection_halts:
  assumes "predefined = []" and "custom_topics custom_text = []"
  shows "run w s predefined custom_text =
           (Stopped,
            s\<lparr>trace := trace s @
               [StInfo (128070 # lit '' Choose at least one theme or enter your own keywords.'')]\<rparr>) \<and>
         filter is_network (trace (snd (run w s predefined custom_text))) =
           filter is_network (trace s)"
  using assms by (simp add: run_def selected_topics_def emit_def is_network_def)

theorem empty_selection_halts_witness:
  "run (example_world (PStr (lit ''key'')) [photo PNone (lit ''u'')] length_logit) init []
     (lit '' , ,'') =
     (Stopped,
      \<lparr>trace = [StInfo (128070 # lit '' Choose at least one theme or enter your own keywords.'')],
       rng_pos = 0\<rparr>)"
proof -
  have a: "custom_topics (lit '' , ,'') = []" by (simp add: topic_eval)
  show ?thesis
    using empty_selection_halts [OF refl a, of
        "example_world (PStr (lit ''key'')) [photo PNone (lit ''u'')] length_logit" init]
    by (simp add: init_def)
qed

section \<open>Properties of the image fetch\<close>

text \<open>The definitions that the evaluation of a concrete input unfolds.\<close>

lemmas world_eval =
  example_world_def photo_def fetched_photo_def scored_photo_def length_logit_def six_urls_def
  init_def lit_def emit_def

lemmas score_eval =
  compute_aesthetic_score_def try_score_def raw_logit_def bindE_def random_uniform_def
  py_random_def round_half_even_def is_finite_def

lemmas rank_eval = rank_def py_sorted_def score_key_def stable_sort_def py_ge_def

lemmas fetch_eval =
  fetch_unsplash_images_def response_results_def make_record_def py_or_def

lemma bindE_Inr_iff: "bindE m f = Inr y \<longleftrightarrow> (\<exists>v. m = Inr v \<and> f v = Inr y)"
  by (cases m) (simp_all add: bindE_def)

lemma mapE_Inr_nth:
  "mapE f xs = Inr ys \<Longrightarrow> length ys = length xs \<and> (\<forall>i<length xs. f (xs ! i) = Inr (ys ! i))"
proof (induction xs arbitrary: ys)
  case Nil
  then show ?case by simp
next
  case (Cons x xs)
  from Cons.prems obtain y ys' where y: "f x = Inr y" "mapE f xs = Inr ys'" "ys = y # ys'"
    by (auto split: sum.splits)
  have ih: "length ys' = length xs \<and> (\<forall>i<length xs. f (xs ! i) = Inr (ys' ! i))"
    using Cons.IH [OF y(2)] .
  show ?case
  proof (intro conjI allI impI)
    show "length ys = length (x # xs)" using ih y(3) by simp
  next
    fix i assume "i < length (x # xs)"
    then show "f ((x # xs) ! i) = Inr (ys ! i)"
      using ih y(1,3) by (cases i) simp_all
  qed
qed

lemma make_record_title:
  "make_record img = Inr r \<Longrightarrow>
     \<exists>alt. getitem img (lit ''alt_description'') = Inr alt \<and>
           title r = py_or alt (PStr (lit ''Untitled''))"
  by (auto simp: make_record_def bindE_Inr_iff)

lemma fetch_success:
  assumes "truthy (access_key w)"
    and "search_photos w (length (trace s)) query cnt (access_key w) = Inr r"
    and "status_code r = 200"
    and "json_body r = Some data"
  shows "fetch_unsplash_images w s query cnt =
           (bindE (response_results data) (mapE make_record),
            emit (SearchRequest query cnt (access_key w)) s)"
  using assms by (simp add: fetch_unsplash_images_def)

lemma fetch_records:
  assumes "truthy (access_key w)"
    and "search_photos w (length (trace s)) query cnt (access_key w) = Inr r"
    and "status_code r = 200"
    and "json_body r = Some data"
    and "response_results data = Inr imgs"
    and "fst (fetch_unsplash_images w s query cnt) = Inr recs"
  shows "length recs = length imgs \<and> (\<forall>i<length imgs. make_record (imgs ! i) = Inr (recs ! i))"
proof -
  have "mapE make_record imgs = Inr recs"
    using assms(6) fetch_success [OF assms(1-4)] assms(5) by (simp add: bindE_def)
  then show ?thesis by (rule mapE_Inr_nth)
qed

text \<open>
  C7: when the API credential is missing (\<open>access_key\<close> is \<open>None\<close>, or any other
  value that \<open>not\<close> takes for false, such as the empty string), the fetch reports the
  error, returns the empty list, and leaves the network events of the trace as they
  were: no request goes to the search endpoint. This holds for every query and count.
\<close>

theorem fetch_missing_key:
  assumes "\<not> truthy (access_key w)"
  shows "fetch_unsplash_images w s query cnt =
           (Inr [], s\<lparr>trace := trace s @ [StError (lit ''Missing Unsplash API key.'')]\<rparr>) \<and>
         filter is_network (trace (snd (fetch_unsplash_images w s query cnt))) =
           filter is_network (trace s)"
  using assms by (simp add: fetch_unsplash_images_def emit_def is_network_def)

theorem fetch_missing_key_witness:
  "fetch_unsplash_images (example_world PNone [photo PNone (lit ''u'')] (\<lambda>i. Inl RuntimeError))
     init (lit ''boho'') 10 =
     (Inr [], \<lparr>trace = [StError (lit ''Missing Unsplash API key.'')], rng_pos = 0\<rparr>)"
proof -
  let ?w = "example_world PNone [photo PNone (lit ''u'')] (\<lambda>i. Inl RuntimeError)"
  have a: "\<not> truthy (access_key ?w)" by (simp add: example_world_def)
  show ?thesis
    using fetch_missing_key [OF a, of init "lit ''boho''" 10]
    by (simp add: init_def)
qed

text \<open>
  C9, as the spec states it: a result with a present \<open>alt_description\<close> keeps it as its
  title. It does not when the description is the empty string: the title is
  "Untitled".
\<close>

theorem fetch_empty_alt_description:
  "fst (fetch_unsplash_images
          (example_world (PStr (lit ''key'')) [photo (PStr []) (lit ''u'')] (\<lambda>i. Inl RuntimeError))
          init (lit ''boho'') 10) =
     Inr [\<lparr>title = PStr (lit ''Untitled''), url = PStr (lit ''u''), author = PStr (lit ''ann''),
           link = PStr (lit ''page''), score = None\<rparr>] \<and>
   PStr (lit ''Untitled'') \<noteq> PStr []"
  by (simp add: fetch_eval world_eval bindE_def)

text \<open>
  C9, amended: on a successful search response the fetch returns one record per
  result, in order; a result whose \<open>alt_description\<close> is \<open>None\<close> gets the title "Untitled",
  and a result whose \<open>alt_description\<close> is truthy (a non-empty string, for one) keeps it as
  its title.
\<close>

theorem fetch_titles:
  assumes "truthy (access_key w)"
    and "search_photos w (length (trace s)) query cnt (access_key w) = Inr r"
    and "status_code r = 200"
    and "json_body r = Some data"
    and "response_results data = Inr imgs"
    and "fst (fetch_unsplash_images w s query cnt) = Inr recs"
  shows "length recs = length imgs \<and>
         (\<forall>i<length imgs. \<exists>alt.
            getitem (imgs ! i) (lit ''alt_description'') = Inr alt \<and>
            (alt = PNone \<longrightarrow> title (recs ! i) = PStr (lit ''Untitled'')) \<and>
            (truthy alt \<longrightarrow> title (recs ! i) = alt))"
proof -
  have recs: "length recs = length imgs" "\<And>i. i < length imgs \<Longrightarrow> make_record (imgs ! i) = Inr (recs ! i)"
    using fetch_records [OF assms] by simp_all
  show ?thesis
  proof (intro conjI allI impI)
    show "length recs = length imgs" by (rule recs(1))
  next
    fix i assume "i < length imgs"
    then obtain alt where alt: "getitem (imgs ! i) (lit ''alt_description'') = Inr alt"
      "title (recs ! i) = py_or alt (PStr (lit ''Untitled''))"
      using make_record_title [OF recs(2)] by blast
    show "\<exists>alt. getitem (imgs ! i) (lit ''alt_description'') = Inr alt \<and>
            (alt = PNone \<longrightarrow> title (recs ! i) = PStr (lit ''Untitled'')) \<and>
            (truthy alt \<longrightarrow> title (recs ! i) = alt)"
      using alt by (auto simp: py_or_def)
  qed
qed

theorem fetch_titles_witness:
  "fst (fetch_unsplash_images
          (example_world (PStr (lit ''key''))
             [photo PNone (lit ''u''), photo (PStr (lit ''red dress'')) (lit ''v'')]
             (\<lambda>i. Inl RuntimeError))
          init (lit ''boho'') 10) =
     Inr [\<lparr>title = PStr (lit ''Untitled''), url = PStr (lit ''u''), author = PStr (lit ''ann''),
           link = PStr (lit ''page''), score = None\<rparr>,
          \<lparr>title = PStr (lit ''red dress''), url = PStr (lit ''v''), author = PStr (lit ''ann''),
           link = PStr (lit ''page''), score = None\<rparr>] \<and>
   truthy (PStr (lit ''red dress''))"
proof -
  let ?imgs = "[photo PNone (lit ''u''), photo (PStr (lit ''red dress'')) (lit ''v'')]"
  let ?w = "example_world (PStr (lit ''key'')) ?imgs (\<lambda>i. Inl RuntimeError)"
  let ?r = "\<lparr>status_code = 200, json_body = Some (PDict [(lit ''results'', PList ?imgs)])\<rparr>"
  let ?recs = "[\<lparr>title = PStr (lit ''Untitled''), url = PStr (lit ''u''), author = PStr (lit ''ann''),
           link = PStr (lit ''page''), score = None\<rparr>,
          \<lparr>title = PStr (lit ''red dress''), url = PStr (lit ''v''), author = PStr (lit ''ann''),
           link = PStr (lit ''page''), score = None\<rparr>]"
  have a1: "truthy (access_key ?w)" by (simp add: example_world_def lit_def)
  have a2: "search_photos ?w (length (trace init)) (lit ''boho'') 10 (access_key ?w) = Inr ?r"
    by (simp add: example_world_def)
  have a3: "status_code ?r = 200" by simp
  have a4: "json_body ?r = Some (PDict [(lit ''results'', PList ?imgs)])" by simp
  have a5: "response_results (PDict [(lit ''results'', PList ?imgs)]) = Inr ?imgs"
    by (simp add: response_results_def bindE_def)
  have a6: "fst (fetch_unsplash_images ?w init (lit ''boho'') 10) = Inr ?recs"
    by (simp add: fetch_eval world_eval bindE_def)
  show ?thesis
    using fetch_titles [OF a1 a2 a3 a4 a5 a6] a6 by (simp add: lit_def)
qed

text \<open>
  C10: a result whose \<open>alt_description\<close> is present but falsy (the empty string, \<open>0\<close>,
  \<open>False\<close>, an empty list or dictionary) gets the title "Untitled" as well: the
  default is chosen by \<open>or\<close>, which tests the truth value and not the presence.
\<close>

theorem fetch_falsy_title:
  assumes "truthy (access_key w)"
    and "search_photos w (length (trace s)) query cnt (access_key w) = Inr r"
    and "status_code r = 200"
    and "json_body r = Some data"
    and "response_results data = Inr imgs"
    and "fst (fetch_unsplash_images w s query cnt) = Inr recs"
    and "i < length imgs"
    and "getitem (imgs ! i) (lit ''alt_description'') = Inr alt"
    and "\<not> truthy alt"
  shows "title (recs ! i) = PStr (lit ''Untitled'')"
proof -
  have "make_record (imgs ! i) = Inr (recs ! i)"
    using fetch_records [OF assms(1-6)] assms(7) by simp
  then obtain alt' where "getitem (imgs ! i) (lit ''alt_description'') = Inr alt'"
      "title (recs ! i) = py_or alt' (PStr (lit ''Untitled''))"
    using make_record_title by blast
  then show ?thesis using assms(8,9) by (simp add: py_or_def)
qed

theorem fetch_falsy_title_witness:
  "title ([\<lparr>title = PStr (lit ''Untitled''), url = PStr (lit ''u''), author = PStr (lit ''ann''),
           link = PStr (lit ''page''), score = None\<rparr>] ! 0) = PStr (lit ''Untitled'') \<and>
   fst (fetch_unsplash_images
          (example_world (PStr (lit ''key'')) [photo (PStr []) (lit ''u'')] (\<lambda>i. Inl RuntimeError))
          init (lit ''boho'') 10) =
     Inr [\<lparr>title = PStr (lit ''Untitled''), url = PStr (lit ''u''), author = PStr (lit ''ann''),
           link = PStr (lit ''page''), score = None\<rparr>]"
proof -
  let ?imgs = "[photo (PStr []) (lit ''u'')]"
  let ?w = "example_world (PStr (lit ''key'')) ?imgs (\<lambda>i. Inl RuntimeError)"
  let ?r = "\<lparr>status_code = 200, json_body = Some (PDict [(lit ''results'', PList ?imgs)])\<rparr>"
  let ?recs = "[\<lparr>title = PStr (lit ''Untitled''), url = PStr (lit ''u''), author = PStr (lit ''ann''),
           link = PStr (lit ''page''), score = None\<rparr>]"
  have a1: "truthy (access_key ?w)" by (simp add: example_world_def lit_def)
  have a2: "search_photos ?w (length (trace init)) (lit ''boho'') 10 (access_key ?w) = Inr ?r"
    by (simp add: example_world_def)
  have a3: "status_code ?r = 200" by simp
  have a4: "json_body ?r = Some (PDict [(lit ''results'', PList ?imgs)])" by simp
  have a5: "response_results (PDict [(lit ''results'', PList ?imgs)]) = Inr ?imgs"
    by (simp add: response_results_def bindE_def)
  have a6: "fst (fetch_unsplash_images ?w init (lit ''boho'') 10) = Inr ?recs"
    by (simp add: fetch_eval world_eval bindE_def)
  have a7: "0 < length ?imgs" by simp
  have a8: "getitem (?imgs ! 0) (lit ''alt_description'') = Inr (PStr [])"
    by (simp add: photo_def lit_def)
  have a9: "\<not> truthy (PStr [])" by simp
  show ?thesis
    using fetch_falsy_title [OF a1 a2 a3 a4 a5 a6 a7 a8 a9] a6 by simp
qed

section \<open>Properties of the float arithmetic\<close>

lemma pow2_pos: "0 < pow2 e"
  by (simp add: pow2_def)

lemma pow2_nonneg_eq: "0 \<le> e \<Longrightarrow> pow2 e = 2 ^ nat e"
  by (simp add: pow2_def)

lemma pow2_neg_eq: "e \<le> 0 \<Longrightarrow> pow2 e = 1 / 2 ^ nat (- e)"
  by (simp add: pow2_def)

lemma pow2_powr: "pow2 e = 2 powr (of_int e)"
proof (cases "0 \<le> e")
  case True
  then show ?thesis by (simp add: pow2_def powr_realpow [symmetric])
next
  case False
  then have "real (nat (- e)) = - of_int e" by simp
  then have "(2::real) ^ nat (- e) = 2 powr (- of_int e)"
    by (metis powr_realpow zero_less_numeral)
  then have "1 / (2::real) ^ nat (- e) = 2 powr (of_int e)"
    by (simp add: powr_minus_divide)
  then show ?thesis using False by (simp add: pow2_def)
qed

lemma pow2_mono: "a \<le> b \<Longrightarrow> pow2 a \<le> pow2 b"
  by (simp add: pow2_powr)

lemma pow2_less_iff: "pow2 a < pow2 b \<longleftrightarrow> a < b"
  by (simp add: pow2_powr)

lemma ilog2_lower: "0 < x \<Longrightarrow> pow2 (ilog2 x) \<le> x"
proof (cases "1 \<le> x")
  case True
  then have n: "0 < \<lfloor>x\<rfloor>" by simp
  have b: "0 \<le> bitlen \<lfloor>x\<rfloor> - 1" using n by (simp add: bitlen_alt_def)
  have "2 ^ nat (bitlen \<lfloor>x\<rfloor> - 1) \<le> \<lfloor>x\<rfloor>" using bitlen_bounds [OF n] by simp
  then have "real_of_int (2 ^ nat (bitlen \<lfloor>x\<rfloor> - 1)) \<le> real_of_int \<lfloor>x\<rfloor>"
    by (simp only: of_int_le_iff)
  also have "\<dots> \<le> x" by simp
  finally show ?thesis using True b by (simp add: ilog2_def pow2_nonneg_eq)
next
  case False
  assume pos: "0 < x"
  let ?m = "\<lceil>1 / x\<rceil> - 1"
  let ?k = "bitlen ?m"
  have "1 < 1 / x" using False pos by simp
  then have m: "0 < ?m" by linarith
  have k: "0 \<le> ?k" by (rule bitlen_nonneg)
  have "?m < 2 ^ nat ?k" using bitlen_bounds [OF m] by simp
  then have "\<lceil>1 / x\<rceil> \<le> 2 ^ nat ?k" by simp
  then have "1 / x \<le> 2 ^ nat ?k" by (simp add: ceiling_le_iff)
  then have "1 / 2 ^ nat ?k \<le> x" using pos by (simp add: field_simps)
  then show ?thesis using False k by (simp add: ilog2_def pow2_neg_eq)
qed

lemma ilog2_upper: "0 < x \<Longrightarrow> x < pow2 (ilog2 x + 1)"
proof (cases "1 \<le> x")
  case True
  then have n: "0 < \<lfloor>x\<rfloor>" by simp
  have b: "0 \<le> bitlen \<lfloor>x\<rfloor>" by (rule bitlen_nonneg)
  have "\<lfloor>x\<rfloor> < 2 ^ nat (bitlen \<lfloor>x\<rfloor>)" using bitlen_bounds [OF n] by simp
  then have "\<lfloor>x\<rfloor> + 1 \<le> 2 ^ nat (bitlen \<lfloor>x\<rfloor>)" by simp
  then have "real_of_int (\<lfloor>x\<rfloor> + 1) \<le> real_of_int (2 ^ nat (bitlen \<lfloor>x\<rfloor>))"
    by (simp only: of_int_le_iff)
  then have "real_of_int \<lfloor>x\<rfloor> + 1 \<le> 2 ^ nat (bitlen \<lfloor>x\<rfloor>)" by simp
  moreover have "x < real_of_int \<lfloor>x\<rfloor> + 1" by linarith
  ultimately have "x < 2 ^ nat (bitlen \<lfloor>x\<rfloor>)" by linarith
  then show ?thesis using True b by (simp add: ilog2_def pow2_nonneg_eq)
next
  case False
  assume pos: "0 < x"
  let ?m = "\<lceil>1 / x\<rceil> - 1"
  let ?k = "bitlen ?m"
  have "1 < 1 / x" using False pos by simp
  then have m: "0 < ?m" by linarith
  have k: "1 \<le> ?k" using m by (simp add: bitlen_alt_def)
  have "2 ^ nat (?k - 1) \<le> ?m" using bitlen_bounds [OF m] by simp
  then have "real_of_int (2 ^ nat (?k - 1)) \<le> real_of_int ?m" by (simp only: of_int_le_iff)
  moreover have "real_of_int ?m < 1 / x" by linarith
  ultimately have "2 ^ nat (?k - 1) < 1 / x" by simp
  then have "x < 1 / 2 ^ nat (?k - 1)" using pos by (simp add: field_simps)
  moreover have "pow2 (- ?k + 1) = 1 / 2 ^ nat (?k - 1)"
    using k by (simp add: pow2_neg_eq)
  ultimately show ?thesis using False by (simp add: ilog2_def)
qed

lemma round_half_even_near: "\<bar>of_int (round_half_even y) - y\<bar> \<le> 1 / 2"
proof -
  have "of_int \<lfloor>y\<rfloor> \<le> y" "y < of_int \<lfloor>y\<rfloor> + 1" by linarith+
  then show ?thesis by (auto simp: round_half_even_def Let_def)
qed

lemma round_half_even_of_int: "round_half_even (of_int n) = n"
  by (simp add: round_half_even_def)

lemma round_half_even_le: "y \<le> of_int n \<Longrightarrow> round_half_even y \<le> n"
  using round_half_even_near [of y] by linarith

lemma round_half_even_ge: "of_int n \<le> y \<Longrightarrow> n \<le> round_half_even y"
  using round_half_even_near [of y] by linarith

lemma ulp_exponent_lower: "x \<noteq> 0 \<Longrightarrow> pow2 (ulp_exponent x) \<le> \<bar>x\<bar> + 1"
proof -
  assume "x \<noteq> 0"
  then have "pow2 (ilog2 \<bar>x\<bar>) \<le> \<bar>x\<bar>" by (intro ilog2_lower) simp
  moreover have "pow2 (ilog2 \<bar>x\<bar> - 52) \<le> pow2 (ilog2 \<bar>x\<bar>)" by (rule pow2_mono) simp
  moreover have "pow2 (- 1074) \<le> 1" by (simp add: pow2_def)
  ultimately have "pow2 (ilog2 \<bar>x\<bar> - 52) \<le> \<bar>x\<bar> + 1" "pow2 (- 1074) \<le> \<bar>x\<bar> + 1"
    by linarith+
  then show ?thesis by (cases "ilog2 \<bar>x\<bar> - 52 \<le> - 1074") (simp_all add: ulp_exponent_def max_def)
qed

lemma round_to_double_near: "\<bar>round_to_double x - x\<bar> \<le> pow2 (ulp_exponent x) / 2"
proof (cases "x = 0")
  case True
  then show ?thesis using pow2_pos [of "ulp_exponent 0"] by (simp add: round_to_double_def)
next
  case False
  let ?u = "pow2 (ulp_exponent x)"
  have u: "0 < ?u" by (rule pow2_pos)
  have "\<bar>of_int (round_half_even (x / ?u)) - x / ?u\<bar> \<le> 1 / 2" by (rule round_half_even_near)
  then have "\<bar>of_int (round_half_even (x / ?u)) - x / ?u\<bar> * ?u \<le> 1 / 2 * ?u"
    using u by (intro mult_right_mono) simp_all
  moreover have "\<bar>of_int (round_half_even (x / ?u)) - x / ?u\<bar> * ?u =
      \<bar>of_int (round_half_even (x / ?u)) * ?u - x\<bar>"
  proof -
    have "(of_int (round_half_even (x / ?u)) - x / ?u) * ?u =
        of_int (round_half_even (x / ?u)) * ?u - x"
      using u by (simp add: left_diff_distrib)
    then have "\<bar>of_int (round_half_even (x / ?u)) * ?u - x\<bar> =
        \<bar>of_int (round_half_even (x / ?u)) - x / ?u\<bar> * \<bar>?u\<bar>"
      by (metis abs_mult)
    then show ?thesis using u by simp
  qed
  ultimately show ?thesis using False by (simp add: round_to_double_def)
qed

lemma round_to_double_bound: "\<bar>round_to_double x\<bar> \<le> 2 * \<bar>x\<bar> + 1"
proof (cases "x = 0")
  case True
  then show ?thesis by (simp add: round_to_double_def)
next
  case False
  then show ?thesis
    using round_to_double_near [of x] ulp_exponent_lower [of x] by linarith
qed

lemma fl_finite:
  "\<bar>x\<bar> \<le> b \<Longrightarrow> 2 * b + 1 < 2 ^ 1024 \<Longrightarrow>
     fl x = Fin (round_to_double x) \<and> \<bar>round_to_double x\<bar> \<le> 2 * b + 1"
proof -
  assume a: "\<bar>x\<bar> \<le> b" "2 * b + 1 < 2 ^ 1024"
  have r: "\<bar>round_to_double x\<bar> \<le> 2 * b + 1" using round_to_double_bound [of x] a(1) by linarith
  then have "round_to_double x < 2 ^ 1024" "- (2 ^ 1024) < round_to_double x"
    using a(2) by linarith+
  then show ?thesis using r by (simp add: fl_def Let_def)
qed

lemma ulp_exponent_small: "\<bar>x\<bar> < 2 ^ 53 \<Longrightarrow> x \<noteq> 0 \<Longrightarrow> ulp_exponent x \<le> 0"
proof -
  assume a: "\<bar>x\<bar> < 2 ^ 53" "x \<noteq> 0"
  have "pow2 (ilog2 \<bar>x\<bar>) \<le> \<bar>x\<bar>" using a(2) by (intro ilog2_lower) simp
  then have "pow2 (ilog2 \<bar>x\<bar>) < pow2 53" using a(1) by (simp add: pow2_def)
  then have "ilog2 \<bar>x\<bar> < 53" by (simp only: pow2_less_iff)
  then show ?thesis by (simp add: ulp_exponent_def)
qed

lemma round_to_double_grid:
  assumes "\<bar>x\<bar> < 2 ^ 53" and "x \<noteq> 0"
  obtains N :: int where "0 < N" and "pow2 (ulp_exponent x) * of_int N = 1"
proof -
  let ?e = "ulp_exponent x"
  have "?e \<le> 0" using assms by (rule ulp_exponent_small)
  then have "pow2 ?e = 1 / 2 ^ nat (- ?e)" by (rule pow2_neg_eq)
  then have "pow2 ?e * of_int (2 ^ nat (- ?e)) = 1" by simp
  moreover have "(0::int) < 2 ^ nat (- ?e)" by simp
  ultimately show ?thesis by (rule that [rotated])
qed

lemma round_to_double_int_le:
  assumes "\<bar>x\<bar> < 2 ^ 53" and "x \<le> of_int n"
  shows "round_to_double x \<le> of_int n"
proof (cases "x = 0")
  case True
  then show ?thesis using assms(2) by (simp add: round_to_double_def)
next
  case False
  define u where "u = pow2 (ulp_exponent x)"
  obtain N :: int where N: "0 < N" "u * of_int N = 1"
    using round_to_double_grid [OF assms(1) False] unfolding u_def by blast
  have u: "0 < u" unfolding u_def by (rule pow2_pos)
  have inv: "1 / u = of_int N" using N(2) u by (simp add: field_simps)
  have "x / u = x * of_int N" using inv by (metis times_divide_eq_right mult.right_neutral)
  also have "\<dots> \<le> of_int n * of_int N" using assms(2) N(1) by (intro mult_right_mono) simp_all
  finally have "x / u \<le> of_int (n * N)" by simp
  then have "round_half_even (x / u) \<le> n * N" by (rule round_half_even_le)
  then have "real_of_int (round_half_even (x / u)) \<le> real_of_int (n * N)"
    by (simp only: of_int_le_iff)
  then have "real_of_int (round_half_even (x / u)) * u \<le> real_of_int (n * N) * u"
    using u by (intro mult_right_mono) simp_all
  also have "\<dots> = of_int n * (u * of_int N)" by simp
  also have "\<dots> = of_int n" using N(2) by simp
  finally show ?thesis using False by (simp add: round_to_double_def u_def)
qed

lemma round_to_double_int_ge:
  assumes "\<bar>x\<bar> < 2 ^ 53" and "of_int n \<le> x"
  shows "of_int n \<le> round_to_double x"
proof (cases "x = 0")
  case True
  then show ?thesis using assms(2) by (simp add: round_to_double_def)
next
  case False
  define u where "u = pow2 (ulp_exponent x)"
  obtain N :: int where N: "0 < N" "u * of_int N = 1"
    using round_to_double_grid [OF assms(1) False] unfolding u_def by blast
  have u: "0 < u" unfolding u_def by (rule pow2_pos)
  have inv: "1 / u = of_int N" using N(2) u by (simp add: field_simps)
  have "of_int n * of_int N \<le> x * of_int N" using assms(2) N(1) by (intro mult_right_mono) simp_all
  also have "\<dots> = x / u" using inv by (metis times_divide_eq_right mult.right_neutral)
  finally have "of_int (n * N) \<le> x / u" by simp
  then have "n * N \<le> round_half_even (x / u)" by (rule round_half_even_ge)
  then have "real_of_int (n * N) \<le> real_of_int (round_half_even (x / u))"
    by (simp only: of_int_le_iff)
  then have "real_of_int (n * N) * u \<le> real_of_int (round_half_even (x / u)) * u"
    using u by (intro mult_right_mono) simp_all
  moreover have "real_of_int (n * N) * u = of_int n * (u * of_int N)" by simp
  moreover have "of_int n * (u * of_int N) = real_of_int n" using N(2) by simp
  ultimately have "of_int n \<le> real_of_int (round_half_even (x / u)) * u" by linarith
  then show ?thesis using False by (simp add: round_to_double_def u_def)
qed

lemma pow2_add: "pow2 (a + b) = pow2 a * pow2 b"
  by (simp add: pow2_powr powr_add)

lemma round_to_double_exact:
  assumes "x = of_int k * pow2 j" and "ulp_exponent x \<le> j"
  shows "round_to_double x = x"
proof (cases "x = 0")
  case True
  then show ?thesis by (simp add: round_to_double_def)
next
  case False
  let ?e = "ulp_exponent x"
  have "pow2 j = pow2 (j - ?e) * pow2 ?e" using pow2_add [of "j - ?e" ?e] by simp
  moreover have "pow2 (j - ?e) = of_int (2 ^ nat (j - ?e))"
    using assms(2) by (simp add: pow2_nonneg_eq)
  ultimately have "x = of_int (k * 2 ^ nat (j - ?e)) * pow2 ?e"
    using assms(1) by simp
  moreover have "pow2 ?e \<noteq> 0" using pow2_pos [of ?e] by simp
  ultimately have "x / pow2 ?e = of_int (k * 2 ^ nat (j - ?e))"
    by (simp add: field_simps)
  then have "of_int (round_half_even (x / pow2 ?e)) * pow2 ?e =
      of_int (k * 2 ^ nat (j - ?e)) * pow2 ?e"
    by (simp only: round_half_even_of_int)
  also have "\<dots> = x" using \<open>x = of_int (k * 2 ^ nat (j - ?e)) * pow2 ?e\<close> by simp
  finally show ?thesis using False by (simp add: round_to_double_def)
qed

lemma item_bound: "item t = Fin l \<Longrightarrow> \<bar>l\<bar> \<le> 2 ^ 128"
proof (cases t)
  case (Float32 s e f)
  assume l: "item t = Fin l"
  have f: "real (unat f) < 2 ^ 23"
  proof -
    have "unat f < 2 ^ LENGTH(23)" by (rule unsigned_less)
    then have "unat f < 2 ^ 23" by simp
    then have "real (unat f) < real (2 ^ 23)" by (simp only: of_nat_less_iff)
    then show ?thesis by simp
  qed
  have f0: "0 \<le> real (unat f)" by (rule of_nat_0_le_iff)
  have ne: "e \<noteq> 255" using l Float32 by (auto split: if_splits)
  have e: "int (unat e) \<le> 254"
  proof -
    have "unat e < 2 ^ LENGTH(8)" by (rule unsigned_less)
    then have "unat e < 256" by simp
    moreover have "unat e \<noteq> 255"
    proof
      assume "unat e = 255"
      then have "word_of_nat (unat e) = (word_of_nat 255 :: 8 word)" by simp
      then have "e = 255" by simp
      then show False using ne by simp
    qed
    ultimately have "unat e < 255" by linarith
    then have "int (unat e) < int 255" by (simp only: of_nat_less_iff)
    then show ?thesis by linarith
  qed
  show ?thesis
  proof (cases "e = 0")
    case True
    have "pow2 (- 149) \<le> 1" by (simp add: pow2_def)
    then have "real (unat f) * pow2 (- 149) \<le> real (unat f) * 1"
      using f0 by (intro mult_left_mono)
    then have "real (unat f) * pow2 (- 149) \<le> real (unat f)" by simp
    moreover have "(2::real) ^ 23 \<le> 2 ^ 128" by simp
    ultimately have "real (unat f) * pow2 (- 149) \<le> 2 ^ 128" using f by linarith
    moreover have "0 \<le> real (unat f) * pow2 (- 149)"
      using f0 pow2_pos [of "- 149"] by (intro mult_nonneg_nonneg) simp_all
    moreover have "l = real (unat f) * pow2 (- 149) \<or> l = - (real (unat f) * pow2 (- 149))"
      using l Float32 True by (auto split: if_splits)
    ultimately show ?thesis by auto
  next
    case False
    let ?p = "pow2 (int (unat e) - 150)"
    have "?p \<le> pow2 104" using e by (intro pow2_mono) simp
    then have p: "?p \<le> 2 ^ 104" by (simp add: pow2_def)
    have p0: "0 < ?p" by (rule pow2_pos)
    have "2 ^ 23 + real (unat f) \<le> 2 ^ 24" using f by simp
    then have "(2 ^ 23 + real (unat f)) * ?p \<le> 2 ^ 24 * 2 ^ 104"
      using f0 p p0 by (intro mult_mono) simp_all
    then have "(2 ^ 23 + real (unat f)) * ?p \<le> 2 ^ 128" by simp
    moreover have "0 \<le> (2 ^ 23 + real (unat f)) * ?p"
      using f0 p0 by (intro mult_nonneg_nonneg) simp_all
    moreover have "l = (2 ^ 23 + real (unat f)) * ?p \<or> l = - ((2 ^ 23 + real (unat f)) * ?p)"
      using l Float32 False ne by (auto split: if_splits)
    ultimately show ?thesis by auto
  qed
qed

lemma affine_double:
  assumes "\<bar>l\<bar> \<le> 2 ^ 128"
  shows "fadd (Fin 5) (fmul (Fin l) (Fin (5 / 2))) =
           Fin (round_to_double (5 + round_to_double (l * (5 / 2)))) \<and>
         \<bar>round_to_double (5 + round_to_double (l * (5 / 2)))\<bar> \<le> 2 ^ 134"
proof -
  have "\<bar>l * (5 / 2)\<bar> \<le> 2 ^ 130" using assms by (simp add: abs_mult)
  then have m: "fl (l * (5 / 2)) = Fin (round_to_double (l * (5 / 2)))"
      "\<bar>round_to_double (l * (5 / 2))\<bar> \<le> 2 * 2 ^ 130 + 1"
    using fl_finite [of "l * (5 / 2)" "2 ^ 130"] by simp_all
  have "\<bar>5 + round_to_double (l * (5 / 2))\<bar> \<le> 2 ^ 132" using m(2) by simp
  then have a: "fl (5 + round_to_double (l * (5 / 2))) =
        Fin (round_to_double (5 + round_to_double (l * (5 / 2))))"
      "\<bar>round_to_double (5 + round_to_double (l * (5 / 2)))\<bar> \<le> 2 * 2 ^ 132 + 1"
    using fl_finite [of "5 + round_to_double (l * (5 / 2))" "2 ^ 132"] by simp_all
  show ?thesis using m(1) a by simp
qed

lemma round2_near: "\<bar>of_int (round_half_even (a * 100)) / 100 - a\<bar> \<le> 1 / 200"
  using round_half_even_near [of "a * 100"] by (simp add: field_simps abs_if split: if_splits)

lemma py_round2_double:
  assumes "\<bar>a\<bar> \<le> 2 ^ 134"
  shows "py_round (Fin a) 2 = Fin (round_to_double (of_int (round_half_even (a * 100)) / 100))"
proof -
  have "(1::real) / 200 + 2 ^ 134 \<le> 2 ^ 135" by simp
  then have "\<bar>real_of_int (round_half_even (a * 100)) / 100\<bar> \<le> 2 ^ 135"
    using round2_near [of a] assms by linarith
  then show ?thesis
    using fl_finite [of "of_int (round_half_even (a * 100)) / 100" "2 ^ 135"] by simp
qed

section \<open>Properties of the scoring\<close>

lemma bindE_Inl_iff:
  "bindE m f = Inl e \<longleftrightarrow> m = Inl e \<or> (\<exists>v. m = Inr v \<and> f v = Inl e)"
  by (cases m) (simp_all add: bindE_def)

lemma raw_logit_Inl_iff:
  "raw_logit w t u = Inl e \<longleftrightarrow>
     get_content w t u = Inl e \<or>
     (\<exists>c. get_content w t u = Inr c \<and> open_rgb w c = Inl e) \<or>
     (\<exists>c i. get_content w t u = Inr c \<and> open_rgb w c = Inr i \<and> clip_logit w i = Inl e)"
  by (auto simp: raw_logit_def bindE_Inl_iff)

lemma raw_logit_item: "raw_logit w t u = Inr l \<Longrightarrow> \<exists>x. l = item x"
  by (auto simp: raw_logit_def bindE_Inr_iff)

lemma try_score_Inl_iff: "try_score w t u = Inl e \<longleftrightarrow> raw_logit w t u = Inl e"
  by (simp add: try_score_def bindE_Inl_iff)

lemma py_random_range:
  "0 \<le> fst (py_random w s) \<and> fst (py_random w s) < 1"
proof -
  let ?n = "unat (random_bits w (rng_pos s))"
  have "?n < 2 ^ LENGTH(53)" by (rule unsigned_less)
  then have "?n < 2 ^ 53" by simp
  then have "real ?n < real (2 ^ 53)" by (simp only: of_nat_less_iff)
  then have "real ?n / 2 ^ 53 < 1" by simp
  moreover have "0 \<le> real ?n / 2 ^ 53"
    by (intro divide_nonneg_nonneg of_nat_0_le_iff zero_le_power) simp
  ultimately show ?thesis by (simp only: py_random_def fst_conv)
qed

lemma ulp_exponent_le:
  assumes "x \<noteq> 0" and "\<bar>x\<bar> < pow2 n" and "- 1074 \<le> n - 53"
  shows "ulp_exponent x \<le> n - 53"
proof -
  have "pow2 (ilog2 \<bar>x\<bar>) \<le> \<bar>x\<bar>" using assms(1) by (intro ilog2_lower) simp
  then have "pow2 (ilog2 \<bar>x\<bar>) < pow2 n" using assms(2) by linarith
  then have "ilog2 \<bar>x\<bar> < n" by (simp only: pow2_less_iff)
  then show ?thesis using assms(3) by (simp add: ulp_exponent_def)
qed

lemma uniform_3_7:
  assumes "r = real k / 2 ^ 53" and "r < 1"
  shows "fadd (Fin (of_int 3)) (fmul (Fin (of_int (7 - 3))) (Fin r)) =
           Fin (round_to_double (3 + 4 * r)) \<and>
         3 \<le> round_to_double (3 + 4 * r) \<and> round_to_double (3 + 4 * r) \<le> 7"
proof -
  have r0: "0 \<le> r" using assms(1) by simp
  have exact: "round_to_double (4 * r) = 4 * r"
  proof (cases "4 * r = 0")
    case True
    then show ?thesis by (simp add: round_to_double_def)
  next
    case False
    have "4 * r = of_int (int k) * pow2 (- 51)" using assms(1) by (simp add: pow2_def)
    moreover have "ulp_exponent (4 * r) \<le> 2 - 53"
      using False assms(2) r0 by (intro ulp_exponent_le) (simp_all add: pow2_def)
    ultimately show ?thesis by (intro round_to_double_exact [of _ "int k" "- 51"]) simp_all
  qed
  have "\<bar>4 * r\<bar> \<le> 4" using r0 assms(2) by simp
  then have "fl (4 * r) = Fin (round_to_double (4 * r))"
    using fl_finite [of "4 * r" 4] by simp
  then have m: "fmul (Fin (of_int (7 - 3))) (Fin r) = Fin (4 * r)" using exact by simp
  have "\<bar>3 + 4 * r\<bar> \<le> 7" using r0 assms(2) by simp
  then have "fl (3 + 4 * r) = Fin (round_to_double (3 + 4 * r))"
    using fl_finite [of "3 + 4 * r" 7] by simp
  then have a: "fadd (Fin (of_int 3)) (Fin (4 * r)) = Fin (round_to_double (3 + 4 * r))"
    by simp
  have small: "\<bar>3 + 4 * r\<bar> < 2 ^ 53" using r0 assms(2) by simp
  have "of_int 3 \<le> round_to_double (3 + 4 * r)"
    using small r0 by (intro round_to_double_int_ge) simp_all
  moreover have "round_to_double (3 + 4 * r) \<le> of_int 7"
    using small assms(2) by (intro round_to_double_int_le) simp_all
  ultimately show ?thesis using m a by simp
qed

lemma compute_failure:
  assumes "raw_logit w (length (trace s)) u = Inl e"
  shows "compute_aesthetic_score w s u =
           (Fin (round_to_double (3 + 4 * (real (unat (random_bits w (rng_pos s))) / 2 ^ 53))),
            s\<lparr>trace := trace s @ [ImageRequest u], rng_pos := Suc (rng_pos s)\<rparr>) \<and>
         3 \<le> round_to_double (3 + 4 * (real (unat (random_bits w (rng_pos s))) / 2 ^ 53)) \<and>
         round_to_double (3 + 4 * (real (unat (random_bits w (rng_pos s))) / 2 ^ 53)) \<le> 7"
proof -
  let ?r = "real (unat (random_bits w (rng_pos s))) / 2 ^ 53"
  have "?r < 1" using py_random_range [of w s] by (simp only: py_random_def fst_conv)
  then have u: "fadd (Fin (of_int 3)) (fmul (Fin (of_int (7 - 3))) (Fin ?r)) =
           Fin (round_to_double (3 + 4 * ?r)) \<and>
         3 \<le> round_to_double (3 + 4 * ?r) \<and> round_to_double (3 + 4 * ?r) \<le> 7"
    by (intro uniform_3_7 [of _ "unat (random_bits w (rng_pos s))"]) simp_all
  have "try_score w (length (trace s)) u = Inl e" using assms by (simp add: try_score_Inl_iff)
  then have "compute_aesthetic_score w s u =
      (fadd (Fin (of_int 3)) (fmul (Fin (of_int (7 - 3))) (Fin ?r)),
       s\<lparr>trace := trace s @ [ImageRequest u], rng_pos := Suc (rng_pos s)\<rparr>)"
    by (simp add: compute_aesthetic_score_def random_uniform_def py_random_def emit_def)
  then show ?thesis using u by simp
qed

lemma compute_success:
  assumes "raw_logit w (length (trace s)) u = Inr l"
  shows "compute_aesthetic_score w s u =
           (py_round (fadd (Fin 5) (fmul l (Fin (5 / 2)))) 2,
            s\<lparr>trace := trace s @ [ImageRequest u]\<rparr>)"
  using assms
  by (simp add: compute_aesthetic_score_def try_score_def bindE_def emit_def)

lemma scoring_failure_fallback:
  assumes "get_content w (length (trace s)) image_url = Inl e \<or>
     (\<exists>c. get_content w (length (trace s)) image_url = Inr c \<and> open_rgb w c = Inl e) \<or>
     (\<exists>c i. get_content w (length (trace s)) image_url = Inr c \<and> open_rgb w c = Inr i \<and>
            clip_logit w i = Inl e)"
  shows "\<exists>x. compute_aesthetic_score w s image_url =
           (Fin x, s\<lparr>trace := trace s @ [ImageRequest image_url], rng_pos := Suc (rng_pos s)\<rparr>) \<and>
          x = round_to_double (3 + 4 * (real (unat (random_bits w (rng_pos s))) / 2 ^ 53)) \<and>
          3 \<le> x \<and> x \<le> 7"
proof -
  have "raw_logit w (length (trace s)) image_url = Inl e"
    using assms by (simp add: raw_logit_Inl_iff)
  then show ?thesis using compute_failure by blast
qed

lemma score_double:
  assumes "raw_logit w (length (trace s)) u = Inr (Fin l)"
  shows "fadd (Fin 5) (fmul (Fin l) (Fin (5 / 2))) =
           Fin (round_to_double (5 + round_to_double (l * (5 / 2)))) \<and>
         fst (compute_aesthetic_score w s u) =
           Fin (round_to_double (of_int (round_half_even
             (round_to_double (5 + round_to_double (l * (5 / 2))) * 100)) / 100))"
proof -
  obtain x where "Fin l = item x" using raw_logit_item [OF assms] by blast
  then have "\<bar>l\<bar> \<le> 2 ^ 128" using item_bound [of x l] by simp
  then have a: "fadd (Fin 5) (fmul (Fin l) (Fin (5 / 2))) =
           Fin (round_to_double (5 + round_to_double (l * (5 / 2))))"
      "\<bar>round_to_double (5 + round_to_double (l * (5 / 2)))\<bar> \<le> 2 ^ 134"
    using affine_double [of l] by simp_all
  show ?thesis
    using compute_success [OF assms] a(1) py_round2_double [OF a(2)] by simp
qed

lemmas float_eval =
  fl_def round_to_double_def ulp_exponent_def ilog2_def pow2_def round_half_even_def Let_def
  compute_bitlen f32_1024th_def f32_minus_2_25_def f32_2_60_def f32_nan_def

text \<open>
  C6, as the spec states it: on the success path the score is \<open>5 + raw_logit * 2.5\<close>.
  It is not: for the logit \<open>1/1024\<close> the affine value is \<open>5 + 5/2048\<close> (all three
  numbers are binary fractions, so the float arithmetic is exact here), and the score
  returned is \<open>5\<close>.
\<close>

theorem score_not_affine:
  "raw_logit (example_world PNone [] (\<lambda>i. Inr f32_1024th)) 0 (PStr (lit ''u'')) =
     Inr (Fin (1 / 1024)) \<and>
   fst (compute_aesthetic_score (example_world PNone [] (\<lambda>i. Inr f32_1024th)) init
          (PStr (lit ''u''))) = Fin 5 \<and>
   Fin 5 \<noteq> Fin (5 + 1 / 1024 * (5 / 2))"
  by (simp add: world_eval score_eval float_eval)

text \<open>
  C6, amended: on the success path with a finite logit, the score is
  \<open>round(5 + raw_logit * 2.5, 2)\<close> as the floats compute it. With \<open>a\<close> the float that
  \<open>5 + raw_logit * 2.5\<close> evaluates to (the product and the sum each rounded to
  binary64) and \<open>d\<close> the multiple of \<open>0.01\<close> nearest to \<open>a\<close>, ties to the even
  multiple, the score is the float nearest to \<open>d\<close>; \<open>d\<close> differs from \<open>a\<close> by at most
  \<open>0.005\<close>.
\<close>

theorem score_rounded_affine:
  assumes "raw_logit w (length (trace s)) image_url = Inr (Fin l)"
  shows "\<exists>a d. fadd (Fin 5) (fmul (Fin l) (Fin (5 / 2))) = Fin a \<and>
           a = round_to_double (5 + round_to_double (l * (5 / 2))) \<and>
           d = of_int (round_half_even (a * 100)) / 100 \<and>
           \<bar>d - a\<bar> \<le> 1 / 200 \<and>
           fst (compute_aesthetic_score w s image_url) = Fin (round_to_double d)"
proof -
  let ?a = "round_to_double (5 + round_to_double (l * (5 / 2)))"
  let ?d = "real_of_int (round_half_even (?a * 100)) / 100"
  have "fadd (Fin 5) (fmul (Fin l) (Fin (5 / 2))) = Fin ?a"
    and "fst (compute_aesthetic_score w s image_url) = Fin (round_to_double ?d)"
    using score_double [OF assms] by simp_all
  moreover have "\<bar>?d - ?a\<bar> \<le> 1 / 200" by (rule round2_near)
  ultimately show ?thesis by blast
qed

theorem score_rounded_affine_witness:
  "fst (compute_aesthetic_score (example_world PNone [] (\<lambda>i. Inr f32_minus_2_25)) init
          (PStr (lit ''u''))) = Fin (- (5584463537939415 / 2 ^ 53)) \<and>
   round_half_even (- (5 / 8) * 100) = - 62 \<and>
   fst (compute_aesthetic_score (example_world PNone [] (\<lambda>i. Inr f32_2_60)) init
          (PStr (lit ''u''))) = Fin 2882303761517117440"
proof -
  let ?w = "example_world PNone [] (\<lambda>i. Inr f32_minus_2_25)"
  have a: "raw_logit ?w (length (trace init)) (PStr (lit ''u'')) = Inr (Fin (- (9 / 4)))"
    by (simp add: world_eval score_eval float_eval)
  have b: "round_to_double (5 + round_to_double (- (9 / 4) * (5 / 2))) = - (5 / 8)"
    by (simp add: float_eval)
  have c: "round_to_double (- (62 / 100)) = - (5584463537939415 / 2 ^ 53)"
    by (simp add: float_eval)
  have d: "round_half_even (- (5 / 8) * 100) = - 62"
    by (simp add: round_half_even_def)
  have e: "fst (compute_aesthetic_score (example_world PNone [] (\<lambda>i. Inr f32_2_60)) init
          (PStr (lit ''u''))) = Fin 2882303761517117440"
    by (simp add: world_eval score_eval float_eval)
  from score_rounded_affine [OF a] obtain a' d'
    where h: "a' = round_to_double (5 + round_to_double (- (9 / 4) * (5 / 2)))"
      "d' = of_int (round_half_even (a' * 100)) / 100"
      "fst (compute_aesthetic_score ?w init (PStr (lit ''u''))) = Fin (round_to_double d')"
    by blast
  have "a' = - (5 / 8)" using h(1) b by simp
  then have "d' = - (62 / 100)" using h(2) d by simp
  then have "fst (compute_aesthetic_score ?w init (PStr (lit ''u''))) =
      Fin (- (5584463537939415 / 2 ^ 53))"
    using h(3) c by simp
  then show ?thesis using d e by simp
qed

lemma compute_finite_or_logit:
  "is_finite (fst (compute_aesthetic_score w s u)) \<or>
   (\<exists>l. raw_logit w (length (trace s)) u = Inr l \<and> \<not> is_finite l)"
proof (cases "raw_logit w (length (trace s)) u")
  case (Inl e)
  then show ?thesis using compute_failure [OF Inl] by (simp add: is_finite_def)
next
  case (Inr l)
  show ?thesis
  proof (cases "is_finite l")
    case True
    then obtain x where "l = Fin x" by (cases l) (simp_all add: is_finite_def)
    then show ?thesis using score_double [of w s u x] Inr by (simp add: is_finite_def)
  next
    case False
    then show ?thesis using Inr by simp
  qed
qed

lemma compute_trace:
  "trace (snd (compute_aesthetic_score w s u)) = trace s @ [ImageRequest u]"
  by (cases "raw_logit w (length (trace s)) u") (simp_all add: compute_failure compute_success)

lemma score_all_Cons:
  "score_all w s (img # imgs) =
     ((img\<lparr>score := Some (fst (compute_aesthetic_score w s (url img)))\<rparr>) #
        fst (score_all w (snd (compute_aesthetic_score w s (url img))) imgs),
      snd (score_all w (snd (compute_aesthetic_score w s (url img))) imgs))"
  by (simp split: prod.splits)

lemma score_all_length: "length (fst (score_all w s images)) = length images"
  by (induction images arbitrary: s) (simp_all add: score_all_Cons del: score_all.simps(2))

lemma score_all_nth:
  "i < length images \<Longrightarrow>
     \<exists>v. fst (score_all w s images) ! i = (images ! i)\<lparr>score := Some v\<rparr> \<and>
         (is_finite v \<or>
          (\<exists>l. raw_logit w (length (trace s) + i) (url (images ! i)) = Inr l \<and> \<not> is_finite l))"
proof (induction images arbitrary: s i)
  case Nil
  then show ?case by simp
next
  case (Cons img imgs)
  show ?case
  proof (cases i)
    case 0
    then show ?thesis
      using compute_finite_or_logit [of w s "url img"]
      by (auto simp: score_all_Cons simp del: score_all.simps(2))
  next
    case (Suc j)
    then have "j < length imgs" using Cons.prems by simp
    from Cons.IH [OF this, of "snd (compute_aesthetic_score w s (url img))"] show ?thesis
      using Suc by (simp add: score_all_Cons compute_trace del: score_all.simps(2))
  qed
qed

lemma score_all_trace:
  "trace (snd (score_all w s images)) = trace s @ map (\<lambda>r. ImageRequest (url r)) images"
  by (induction images arbitrary: s)
     (simp_all add: score_all_Cons compute_trace del: score_all.simps(2))

lemma score_all_scored: "r \<in> set (fst (score_all w s images)) \<Longrightarrow> score r \<noteq> None"
proof -
  assume "r \<in> set (fst (score_all w s images))"
  then obtain i where i: "i < length images" "fst (score_all w s images) ! i = r"
    by (auto simp: in_set_conv_nth score_all_length)
  from score_all_nth [OF i(1), of w s] i(2) show ?thesis by auto
qed

text \<open>
  C2, as the spec states it: after the scoring step every score is a finite number, never
  NaN. It is not when the forward pass succeeds and returns NaN: \<open>nan * 2.5\<close>,
  \<open>5 + nan\<close> and \<open>round(nan, 2)\<close> are NaN, nothing raises, and NaN is stored as the
  score.
\<close>

theorem score_all_nan:
  "raw_logit (example_world PNone [] (\<lambda>i. Inr f32_nan)) 0 (PStr (lit ''u'')) = Inr NaN \<and>
   fst (score_all (example_world PNone [] (\<lambda>i. Inr f32_nan)) init [fetched_photo (lit ''u'')]) =
     [scored_photo (lit ''u'') NaN] \<and>
   \<not> is_finite NaN"
  by (simp add: world_eval score_eval float_eval)

text \<open>
  C2, amended: after the scoring step every record of the pass has a score (the list
  has the same records in the same order, each with its score set), whether or not the
  download, the decoding or the inference failed. The score is finite unless the forward
  pass succeeded for that record (at its moment in the pass, one event per record) and
  returned a logit that is not finite (NaN or an infinity), which the scorer passes
  through.
\<close>

theorem score_all_present:
  "length (fst (score_all w s images)) = length images \<and>
   (\<forall>i<length images. \<exists>v.
      fst (score_all w s images) ! i = (images ! i)\<lparr>score := Some v\<rparr> \<and>
      (is_finite v \<or>
       (\<exists>l. raw_logit w (length (trace s) + i) (url (images ! i)) = Inr l \<and> \<not> is_finite l)))"
  using score_all_nth [of _ images w s] by (simp add: score_all_length)

theorem score_all_present_witness:
  "fst (score_all (example_world PNone [] (\<lambda>i. Inl RuntimeError)) init [fetched_photo (lit ''u'')]) =
     [scored_photo (lit ''u'') (Fin 5)] \<and> is_finite (Fin 5)"
  using score_all_present [of "example_world PNone [] (\<lambda>i. Inl RuntimeError)" init
      "[fetched_photo (lit ''u'')]"]
  by (simp add: world_eval score_eval float_eval)

section \<open>Properties of the ranking\<close>

lemma mset_insort_lt: "mset (insort_lt x ys) = add_mset x (mset ys)"
  by (induction ys) simp_all

lemma mset_stable_sort: "mset (stable_sort ps) = mset ps"
  by (induction ps) (simp_all add: stable_sort_def mset_insort_lt)

lemma set_stable_sort: "set (stable_sort ps) = set ps"
  using mset_stable_sort [of ps] by (metis set_mset_mset)

lemma py_lt_asym: "py_lt a b \<Longrightarrow> \<not> py_lt b a"
  by (cases a; cases b) simp_all

lemma py_le_trans:
  "a \<noteq> NaN \<Longrightarrow> b \<noteq> NaN \<Longrightarrow> c \<noteq> NaN \<Longrightarrow> \<not> py_lt b a \<Longrightarrow> \<not> py_lt c b \<Longrightarrow> \<not> py_lt c a"
  by (cases a; cases b; cases c) simp_all

lemma ascending_insort_lt:
  assumes "ascending ys" and "fst x \<noteq> NaN" and "\<forall>y\<in>set ys. fst y \<noteq> NaN"
  shows "ascending (insort_lt x ys)"
  using assms
proof (induction ys)
  case Nil
  then show ?case by (simp add: ascending_def)
next
  case (Cons y ys)
  have ih: "ascending (insort_lt x ys)" using Cons by (simp add: ascending_def)
  show ?case
  proof (cases "py_lt (fst y) (fst x)")
    case True
    have "\<forall>z\<in>set (insort_lt x ys). \<not> py_lt (fst z) (fst y)"
    proof
      fix z assume "z \<in> set (insort_lt x ys)"
      then have "z \<in># mset (insort_lt x ys)" by simp
      then have "z = x \<or> z \<in> set ys" by (simp add: mset_insort_lt)
      then show "\<not> py_lt (fst z) (fst y)"
        using True Cons.prems(1) by (auto simp: ascending_def dest: py_lt_asym)
    qed
    then show ?thesis using True ih by (simp add: ascending_def)
  next
    case False
    have "\<forall>z\<in>set ys. \<not> py_lt (fst z) (fst x)"
    proof
      fix z assume z: "z \<in> set ys"
      then have "\<not> py_lt (fst z) (fst y)" using Cons.prems(1) by (simp add: ascending_def)
      then show "\<not> py_lt (fst z) (fst x)"
        using py_le_trans [of "fst x" "fst y" "fst z"] False Cons.prems(2,3) z by simp
    qed
    then show ?thesis using False Cons.prems(1) by (simp add: ascending_def)
  qed
qed

lemma ascending_stable_sort:
  "\<forall>p\<in>set ps. fst p \<noteq> NaN \<Longrightarrow> ascending (stable_sort ps)"
proof (induction ps)
  case Nil
  show ?case by (simp add: stable_sort_def ascending_def)
next
  case (Cons p ps)
  have "ascending (stable_sort ps)" using Cons by simp
  moreover have "\<forall>y\<in>set (stable_sort ps). fst y \<noteq> NaN"
    using Cons.prems by (simp add: set_stable_sort)
  ultimately have "ascending (insort_lt p (stable_sort ps))"
    using Cons.prems by (intro ascending_insort_lt) simp_all
  then show ?case by (simp add: stable_sort_def)
qed

lemma mapE_score_key:
  "\<forall>r\<in>set xs. score r \<noteq> None \<Longrightarrow>
     \<exists>ks. mapE score_key xs = Inr ks \<and> length ks = length xs \<and>
          (\<forall>p\<in>set (zip ks xs). score (snd p) = Some (fst p))"
proof (induction xs)
  case Nil
  show ?case by simp
next
  case (Cons x xs)
  then obtain ks where ks: "mapE score_key xs = Inr ks" "length ks = length xs"
      "\<forall>p\<in>set (zip ks xs). score (snd p) = Some (fst p)"
    by auto
  obtain v where "score x = Some v" using Cons.prems by auto
  then have v: "score x = Some v" "score_key x = Inr v" by (simp_all add: score_key_def)
  show ?case
    using ks v by (intro exI [of _ "v # ks"]) simp
qed

lemma mapE_score_key_None:
  "mapE score_key xs = Inr ks \<Longrightarrow> \<forall>r\<in>set xs. score r \<noteq> None"
  by (induction xs arbitrary: ks) (auto simp: score_key_def split: sum.splits option.splits)

lemma rank_sorted:
  assumes "\<forall>r\<in>set images. \<exists>v. score r = Some v \<and> v \<noteq> NaN"
  shows "\<exists>ranked. rank images = Inr ranked \<and> mset ranked = mset images \<and>
           (\<forall>i j. i < j \<and> j < length ranked \<longrightarrow>
              (\<exists>a b. score (ranked ! i) = Some a \<and> score (ranked ! j) = Some b \<and> py_ge a b))"
proof -
  have "\<forall>r\<in>set images. score r \<noteq> None" using assms by auto
  then obtain ks where ks: "mapE score_key images = Inr ks" "length ks = length images"
      "\<forall>p\<in>set (zip ks images). score (snd p) = Some (fst p)"
    using mapE_score_key by blast
  let ?ps = "zip ks images"
  let ?sorted = "rev (stable_sort (rev ?ps))"
  have rank: "rank images = Inr (map snd ?sorted)"
    using ks(1) by (simp add: rank_def py_sorted_def)
  have set_sorted: "set ?sorted = set ?ps" by (simp add: set_stable_sort)
  have keys: "\<forall>p\<in>set ?ps. score (snd p) = Some (fst p) \<and> fst p \<noteq> NaN"
  proof
    fix p assume p: "p \<in> set ?ps"
    then have "snd p \<in> set images" by (metis prod.collapse set_zip_rightD)
    then show "score (snd p) = Some (fst p) \<and> fst p \<noteq> NaN" using assms ks(3) p by fastforce
  qed
  have "mset ?sorted = mset ?ps" by (simp add: mset_stable_sort)
  then have "mset (map snd ?sorted) = mset (map snd ?ps)" by (metis mset_map)
  then have perm: "mset (map snd ?sorted) = mset images" using ks(2) by simp
  have "ascending (stable_sort (rev ?ps))"
    using keys by (intro ascending_stable_sort) simp
  then have desc: "sorted_wrt (\<lambda>x y. \<not> py_lt (fst x) (fst y)) ?sorted"
    by (simp add: ascending_def sorted_wrt_rev)
  have "\<exists>a b. score (map snd ?sorted ! i) = Some a \<and> score (map snd ?sorted ! j) = Some b \<and>
          py_ge a b"
    if "i < j" "j < length (map snd ?sorted)" for i j
  proof -
    have len: "i < length ?sorted" "j < length ?sorted" using that by simp_all
    have "\<not> py_lt (fst (?sorted ! i)) (fst (?sorted ! j))"
      using desc that(1) len(2) by (rule sorted_wrt_nth_less)
    moreover have "?sorted ! i \<in> set ?ps" "?sorted ! j \<in> set ?ps"
      using len set_sorted nth_mem by blast+
    ultimately show ?thesis using keys len by (simp add: py_ge_def)
  qed
  then show ?thesis using rank perm by blast
qed

text \<open>
  C3, as the spec states it: for every list of scored records the ranked sequence is
  descending by score. It is not when a score is NaN: every comparison with NaN is
  false, so \<open>ranked[0].score >= ranked[1].score\<close> fails for the two records below, in
  whatever order a sort leaves them.
\<close>

theorem rank_nan_unsorted:
  "rank [scored_photo (lit ''a'') NaN, scored_photo (lit ''b'') (Fin 1)] =
     Inr [scored_photo (lit ''a'') NaN, scored_photo (lit ''b'') (Fin 1)] \<and>
   \<not> py_ge NaN (Fin 1)"
  by (simp add: rank_eval world_eval)

text \<open>
  C3, amended: for every list of scored records none of whose scores is NaN, the ranker
  returns a permutation of the list that is descending by score:
  \<open>ranked[i].score >= ranked[i+1].score\<close> for every valid index \<open>i\<close>.
\<close>

theorem rank_descending:
  assumes "\<forall>r\<in>set images. \<exists>v. score r = Some v \<and> v \<noteq> NaN"
  shows "\<exists>ranked. rank images = Inr ranked \<and> mset ranked = mset images \<and>
           (\<forall>i. Suc i < length ranked \<longrightarrow>
              (\<exists>a b. score (ranked ! i) = Some a \<and> score (ranked ! Suc i) = Some b \<and>
                     py_ge a b))"
proof -
  obtain ranked where r: "rank images = Inr ranked" "mset ranked = mset images"
    "\<forall>i j. i < j \<and> j < length ranked \<longrightarrow>
       (\<exists>a b. score (ranked ! i) = Some a \<and> score (ranked ! j) = Some b \<and> py_ge a b)"
    using rank_sorted [OF assms] by blast
  have "\<exists>a b. score (ranked ! i) = Some a \<and> score (ranked ! Suc i) = Some b \<and> py_ge a b"
    if "Suc i < length ranked" for i
    using r(3) that by (simp add: lessI)
  then show ?thesis using r(1,2) by blast
qed

theorem rank_descending_witness:
  "rank [scored_photo (lit ''a'') (Fin 1), scored_photo (lit ''b'') PInf,
         scored_photo (lit ''c'') (Fin 2)] =
     Inr [scored_photo (lit ''b'') PInf, scored_photo (lit ''c'') (Fin 2),
          scored_photo (lit ''a'') (Fin 1)] \<and>
   py_ge PInf (Fin 2) \<and> py_ge (Fin 2) (Fin 1)"
proof -
  let ?images = "[scored_photo (lit ''a'') (Fin 1), scored_photo (lit ''b'') PInf,
         scored_photo (lit ''c'') (Fin 2)]"
  have a: "\<forall>r\<in>set ?images. \<exists>v. score r = Some v \<and> v \<noteq> NaN"
    by (simp add: world_eval)
  show ?thesis using rank_descending [OF a] by (simp add: rank_eval world_eval)
qed

section \<open>Properties of the per-topic pass\<close>

lemma image_event_scored:
  "score r \<noteq> None \<Longrightarrow> \<exists>ev. image_event r = Inr ev \<and> is_image ev"
  by (auto simp: image_event_def is_image_def)

lemma st_images_prefix:
  "\<forall>r\<in>set imgs. score r \<noteq> None \<Longrightarrow>
     \<exists>evs k. mapE image_event imgs = Inr evs \<and> length evs = length imgs \<and>
       filter is_image evs = evs \<and> k \<le> length evs \<and>
       snd (st_images w imgs s) = s\<lparr>trace := trace s @ take k evs\<rparr> \<and>
       ((\<forall>r\<in>set imgs. st_image w (url r) = None) \<longrightarrow>
          k = length evs \<and> fst (st_images w imgs s) = Inr ())"
proof (induction imgs arbitrary: s)
  case Nil
  show ?case by simp
next
  case (Cons r imgs)
  obtain ev where ev: "image_event r = Inr ev" "is_image ev"
    using Cons.prems image_event_scored [of r] by auto
  obtain evs k where evs: "mapE image_event imgs = Inr evs" "length evs = length imgs"
      "filter is_image evs = evs" "k \<le> length evs"
      "snd (st_images w imgs (emit ev s)) =
         (emit ev s)\<lparr>trace := trace (emit ev s) @ take k evs\<rparr>"
      "(\<forall>r\<in>set imgs. st_image w (url r) = None) \<longrightarrow>
         k = length evs \<and> fst (st_images w imgs (emit ev s)) = Inr ()"
  proof -
    have "\<forall>r\<in>set imgs. score r \<noteq> None" using Cons.prems by simp
    from Cons.IH [OF this, of "emit ev s"] show ?thesis using that by blast
  qed
  show ?case
  proof (cases "st_image w (url r)")
    case None
    have "snd (st_images w (r # imgs) s) = s\<lparr>trace := trace s @ take (Suc k) (ev # evs)\<rparr>"
      using ev(1) None evs(5) by (simp add: emit_def)
    moreover have "(\<forall>r\<in>set (r # imgs). st_image w (url r) = None) \<longrightarrow>
        Suc k = length (ev # evs) \<and> fst (st_images w (r # imgs) s) = Inr ()"
      using ev(1) None evs(6) by simp
    ultimately show ?thesis
      using ev evs(1-4) by (intro exI [of _ "ev # evs"] exI [of _ "Suc k"]) simp
  next
    case (Some e)
    have "snd (st_images w (r # imgs) s) = s\<lparr>trace := trace s @ take 0 (ev # evs)\<rparr>"
      using ev(1) Some by simp
    moreover have "\<not> (\<forall>r\<in>set (r # imgs). st_image w (url r) = None)" using Some by simp
    ultimately show ?thesis
      using ev evs(1-3) by (intro exI [of _ "ev # evs"] exI [of _ 0]) simp
  qed
qed

lemma fetch_trace:
  "\<exists>evs. trace (snd (fetch_unsplash_images w s query cnt)) = trace s @ evs \<and>
         filter is_image evs = []"
  by (auto simp: fetch_unsplash_images_def emit_def is_image_def Let_def
           split: sum.splits option.splits)

lemma rank_scored:
  assumes "\<forall>r\<in>set images. score r \<noteq> None"
  shows "\<exists>ranked. rank images = Inr ranked \<and> mset ranked = mset images"
proof -
  obtain ks where ks: "mapE score_key images = Inr ks" "length ks = length images"
    using mapE_score_key [OF assms] by blast
  let ?sorted = "rev (stable_sort (rev (zip ks images)))"
  have "mset ?sorted = mset (zip ks images)" by (simp add: mset_stable_sort)
  then have "mset (map snd ?sorted) = mset (map snd (zip ks images))" by (metis mset_map)
  then have "mset (map snd ?sorted) = mset images" using ks(2) by simp
  then show ?thesis using ks(1) by (simp add: rank_def py_sorted_def)
qed

lemma score_all_url:
  "r \<in> set (fst (score_all w s images)) \<Longrightarrow> \<exists>r'\<in>set images. url r = url r'"
proof -
  assume "r \<in> set (fst (score_all w s images))"
  then obtain i where i: "i < length images" "fst (score_all w s images) ! i = r"
    by (auto simp: in_set_conv_nth score_all_length)
  from score_all_nth [OF i(1), of w s] i(2) obtain v where "r = (images ! i)\<lparr>score := Some v\<rparr>"
    by auto
  then have "url r = url (images ! i)" by simp
  then show ?thesis using i(1) nth_mem by blast
qed

lemma process_topic_pass:
  assumes "fetch_unsplash_images w (emit (StHeader topic) s) topic 10 = (Inr images, s2)"
    and "images \<noteq> []"
    and "score_all w s2 images = (scored, s3)"
  shows "\<exists>ranked evs k. rank scored = Inr ranked \<and> mset ranked = mset scored \<and>
           mapE image_event (take 5 ranked) = Inr evs \<and>
           length evs = min 5 (length images) \<and> k \<le> length evs \<and>
           snd (process_topic w s topic) = s3\<lparr>trace := trace s3 @ take k evs\<rparr> \<and>
           filter is_image (drop (length (trace s)) (trace (snd (process_topic w s topic)))) =
             take k evs \<and>
           ((\<forall>r\<in>set (take 5 ranked). st_image w (url r) = None) \<longrightarrow>
              k = length evs \<and> fst (process_topic w s topic) = Inr ())"
proof -
  have scored: "\<forall>r\<in>set scored. score r \<noteq> None"
    using score_all_scored [of _ w s2 images] assms(3) by simp
  then obtain ranked where ranked: "rank scored = Inr ranked" "mset ranked = mset scored"
    using rank_scored by blast
  have "set ranked = set scored" using ranked(2) by (metis set_mset_mset)
  then have "\<forall>r\<in>set (take 5 ranked). score r \<noteq> None"
    using scored by (auto dest: in_set_takeD)
  then obtain evs k where evs: "mapE image_event (take 5 ranked) = Inr evs"
      "length evs = length (take 5 ranked)" "filter is_image evs = evs" "k \<le> length evs"
      "snd (st_images w (take 5 ranked) s3) = s3\<lparr>trace := trace s3 @ take k evs\<rparr>"
      "(\<forall>r\<in>set (take 5 ranked). st_image w (url r) = None) \<longrightarrow>
         k = length evs \<and> fst (st_images w (take 5 ranked) s3) = Inr ()"
    using st_images_prefix [of "take 5 ranked" w s3] by blast
  have "length ranked = length scored" using ranked(2) by (metis size_mset)
  also have "\<dots> = length images" using score_all_length [of w s2 images] assms(3) by simp
  finally have len: "length evs = min 5 (length images)" using evs(2) by (simp add: min.commute)
  have pt: "process_topic w s topic = st_images w (take 5 ranked) s3"
    using assms ranked(1) by (simp add: process_topic_def)
  obtain es where es: "trace s2 = trace (emit (StHeader topic) s) @ es" "filter is_image es = []"
    using fetch_trace [of w "emit (StHeader topic) s" topic 10] assms(1) by auto
  have "trace s3 = trace s2 @ map (\<lambda>r. ImageRequest (url r)) images"
    using score_all_trace [of w s2 images] assms(3) by simp
  then have "trace s3 @ take k evs =
      trace s @ (StHeader topic # es @ map (\<lambda>r. ImageRequest (url r)) images @ take k evs)"
    using es(1) by (simp add: emit_def)
  moreover have "filter is_image (take k evs) = take k evs"
    using evs(3) by (metis filter_id_conv in_set_takeD)
  ultimately have "filter is_image (drop (length (trace s)) (trace s3 @ take k evs)) = take k evs"
    using es(2) by (simp add: is_image_def filter_empty_conv)
  then have "filter is_image (drop (length (trace s)) (trace (snd (process_topic w s topic)))) =
      take k evs"
    using pt evs(5) by simp
  then show ?thesis using ranked evs(1,4,5,6) pt len by auto
qed

lemma process_topic_count:
  "length (filter is_image (drop (length (trace s)) (trace (snd (process_topic w s topic))))) \<le> 5"
proof -
  obtain res s2 where f: "fetch_unsplash_images w (emit (StHeader topic) s) topic 10 = (res, s2)"
    by (cases "fetch_unsplash_images w (emit (StHeader topic) s) topic 10") auto
  obtain es where es: "trace s2 = trace (emit (StHeader topic) s) @ es" "filter is_image es = []"
    using fetch_trace [of w "emit (StHeader topic) s" topic 10] f by auto
  then have s2: "filter is_image (drop (length (trace s)) (trace s2)) = []"
    by (simp add: emit_def is_image_def)
  show ?thesis
  proof (cases res)
    case (Inl e)
    then show ?thesis using f s2 by (simp add: process_topic_def)
  next
    case (Inr images)
    show ?thesis
    proof (cases "images = []")
      case True
      then show ?thesis using f Inr s2 es(1)
        by (simp add: process_topic_def emit_def is_image_def)
    next
      case False
      obtain scored s3 where sc: "score_all w s2 images = (scored, s3)"
        by (cases "score_all w s2 images") auto
      from process_topic_pass [OF f [unfolded Inr] False sc]
      obtain evs :: "event list" and k where "length evs = min 5 (length images)"
        "filter is_image (drop (length (trace s)) (trace (snd (process_topic w s topic)))) =
           take k evs"
        by blast
      then show ?thesis by simp
    qed
  qed
qed

lemma process_topic_no_abort:
  assumes "fst (fetch_unsplash_images w (emit (StHeader topic) s) topic 10) = Inr images"
    and "\<forall>r\<in>set images. st_image w (url r) = None"
  shows "fst (process_topic w s topic) = Inr ()"
proof -
  obtain s2 where f: "fetch_unsplash_images w (emit (StHeader topic) s) topic 10 = (Inr images, s2)"
    using assms(1) by (cases "fetch_unsplash_images w (emit (StHeader topic) s) topic 10") auto
  show ?thesis
  proof (cases "images = []")
    case True
    then show ?thesis using f by (simp add: process_topic_def)
  next
    case False
    obtain scored s3 where sc: "score_all w s2 images = (scored, s3)"
      by (cases "score_all w s2 images") auto
    from process_topic_pass [OF f False sc]
    obtain ranked where r: "mset ranked = mset scored"
      "(\<forall>r\<in>set (take 5 ranked). st_image w (url r) = None) \<longrightarrow>
         fst (process_topic w s topic) = Inr ()"
      by blast
    have "set ranked = set scored" using r(1) by (metis set_mset_mset)
    moreover have "\<forall>r\<in>set scored. st_image w (url r) = None"
      using score_all_url [of _ w s2 images] sc assms(2) by fastforce
    ultimately have "\<forall>r\<in>set (take 5 ranked). st_image w (url r) = None"
      by (auto dest: in_set_takeD)
    then show ?thesis using r(2) by simp
  qed
qed

lemma example_fetch:
  "truthy key \<Longrightarrow>
   fetch_unsplash_images (example_world key (map (photo PNone) us) logit) s q n =
     (Inr (map fetched_photo us), emit (SearchRequest q n key) s)"
proof -
  assume key: "truthy key"
  have rec: "make_record (photo PNone u) = Inr (fetched_photo u)" for u
    by (simp add: make_record_def photo_def fetched_photo_def bindE_def py_or_def lit_def)
  have "mapE make_record (map (photo PNone) us) = Inr (map fetched_photo us)"
    by (induction us) (simp_all add: rec)
  then show ?thesis
    using key
    by (simp add: fetch_unsplash_images_def example_world_def response_results_def bindE_def
        lit_def)
qed

text \<open>
  C4: a pass over one topic renders at most 5 images, whatever was fetched. When the
  fetch returns a non-empty list and no score is NaN, the pass ranks the scored records
  into a descending sequence and calls \<open>st.image\<close> on its first 5 records in order (on
  all of them when fewer than 5 were fetched), each with its url, score, author and
  link: the images rendered are a prefix of these, and they are all of these, with the
  pass ending normally, when \<open>st.image\<close> raises for none of them. Nothing else is
  rendered.
\<close>

theorem display_top_five:
  "length (filter is_image (drop (length (trace s)) (trace (snd (process_topic w s topic))))) \<le> 5 \<and>
   (fetch_unsplash_images w (emit (StHeader topic) s) topic 10 = (Inr images, s2) \<and>
    images \<noteq> [] \<and> score_all w s2 images = (scored, s3) \<and>
    (\<forall>r\<in>set scored. score r \<noteq> Some NaN) \<longrightarrow>
    (\<exists>ranked evs k. rank scored = Inr ranked \<and> mset ranked = mset scored \<and>
       (\<forall>i j. i < j \<and> j < length ranked \<longrightarrow>
          (\<exists>a b. score (ranked ! i) = Some a \<and> score (ranked ! j) = Some b \<and> py_ge a b)) \<and>
       mapE image_event (take 5 ranked) = Inr evs \<and>
       length evs = min 5 (length images) \<and> k \<le> length evs \<and>
       snd (process_topic w s topic) = s3\<lparr>trace := trace s3 @ take k evs\<rparr> \<and>
       filter is_image (drop (length (trace s)) (trace (snd (process_topic w s topic)))) =
         take k evs \<and>
       ((\<forall>r\<in>set (take 5 ranked). st_image w (url r) = None) \<longrightarrow>
          k = length evs \<and> fst (process_topic w s topic) = Inr ())))"
proof (intro conjI impI)
  show "length (filter is_image (drop (length (trace s)) (trace (snd (process_topic w s topic)))))
      \<le> 5"
    by (rule process_topic_count)
next
  assume a: "fetch_unsplash_images w (emit (StHeader topic) s) topic 10 = (Inr images, s2) \<and>
    images \<noteq> [] \<and> score_all w s2 images = (scored, s3) \<and>
    (\<forall>r\<in>set scored. score r \<noteq> Some NaN)"
  then have sc: "score_all w s2 images = (scored, s3)" by simp
  have "\<forall>r\<in>set scored. score r \<noteq> None"
    using score_all_scored [of _ w s2 images] sc by simp
  then have "\<forall>r\<in>set scored. \<exists>v. score r = Some v \<and> v \<noteq> NaN" using a by fastforce
  then obtain sorted_list where s: "rank scored = Inr sorted_list"
      "\<forall>i j. i < j \<and> j < length sorted_list \<longrightarrow>
         (\<exists>a b. score (sorted_list ! i) = Some a \<and> score (sorted_list ! j) = Some b \<and>
                py_ge a b)"
    using rank_sorted [of scored] by blast
  from a process_topic_pass [of w topic s images s2 scored s3]
  obtain ranked evs k where p: "rank scored = Inr ranked" "mset ranked = mset scored"
      "mapE image_event (take 5 ranked) = Inr evs"
      "length evs = min 5 (length images)" "k \<le> length evs"
      "snd (process_topic w s topic) = s3\<lparr>trace := trace s3 @ take k evs\<rparr>"
      "filter is_image (drop (length (trace s)) (trace (snd (process_topic w s topic)))) =
         take k evs"
      "(\<forall>r\<in>set (take 5 ranked). st_image w (url r) = None) \<longrightarrow>
         k = length evs \<and> fst (process_topic w s topic) = Inr ()"
    by blast
  have "sorted_list = ranked" using s(1) p(1) by simp
  then show "\<exists>ranked evs k. rank scored = Inr ranked \<and> mset ranked = mset scored \<and>
       (\<forall>i j. i < j \<and> j < length ranked \<longrightarrow>
          (\<exists>a b. score (ranked ! i) = Some a \<and> score (ranked ! j) = Some b \<and> py_ge a b)) \<and>
       mapE image_event (take 5 ranked) = Inr evs \<and>
       length evs = min 5 (length images) \<and> k \<le> length evs \<and>
       snd (process_topic w s topic) = s3\<lparr>trace := trace s3 @ take k evs\<rparr> \<and>
       filter is_image (drop (length (trace s)) (trace (snd (process_topic w s topic)))) =
         take k evs \<and>
       ((\<forall>r\<in>set (take 5 ranked). st_image w (url r) = None) \<longrightarrow>
          k = length evs \<and> fst (process_topic w s topic) = Inr ())"
    using s(2) p by blast
qed

theorem display_top_five_witness:
  "filter is_image
     (trace (snd (process_topic
        (example_world (PStr (lit ''key'')) (map (photo PNone) six_urls) length_logit)
        init (lit ''boho'')))) =
     [StImage (PStr (lit ''https://x/ffffff'')) (Fin 163845) (PStr (lit ''ann'')) (PStr (lit ''page'')),
      StImage (PStr (lit ''https://x/eeeee'')) (Fin 81925) (PStr (lit ''ann'')) (PStr (lit ''page'')),
      StImage (PStr (lit ''https://x/dddd'')) (Fin 40965) (PStr (lit ''ann'')) (PStr (lit ''page'')),
      StImage (PStr (lit ''https://x/ccc'')) (Fin 20485) (PStr (lit ''ann'')) (PStr (lit ''page'')),
      StImage (PStr (lit ''https://x/bb'')) (Fin 10245) (PStr (lit ''ann'')) (PStr (lit ''page''))] \<and>
   fst (process_topic
        (example_world (PStr (lit ''key'')) (map (photo PNone) six_urls) length_logit)
        init (lit ''boho'')) = Inr ()"
proof -
  let ?key = "PStr (lit ''key'')"
  let ?w = "example_world ?key (map (photo PNone) six_urls) length_logit"
  let ?s1 = "emit (StHeader (lit ''boho'')) init"
  let ?images = "map fetched_photo six_urls"
  let ?s2 = "emit (SearchRequest (lit ''boho'') 10 ?key) ?s1"
  let ?scored = "[scored_photo (lit ''https://x/a'') (Fin 5125),
      scored_photo (lit ''https://x/bb'') (Fin 10245),
      scored_photo (lit ''https://x/ccc'') (Fin 20485),
      scored_photo (lit ''https://x/dddd'') (Fin 40965),
      scored_photo (lit ''https://x/eeeee'') (Fin 81925),
      scored_photo (lit ''https://x/ffffff'') (Fin 163845)]"
  let ?s3 = "snd (score_all ?w ?s2 ?images)"
  let ?shown = "[StImage (PStr (lit ''https://x/ffffff'')) (Fin 163845) (PStr (lit ''ann'')) (PStr (lit ''page'')),
      StImage (PStr (lit ''https://x/eeeee'')) (Fin 81925) (PStr (lit ''ann'')) (PStr (lit ''page'')),
      StImage (PStr (lit ''https://x/dddd'')) (Fin 40965) (PStr (lit ''ann'')) (PStr (lit ''page'')),
      StImage (PStr (lit ''https://x/ccc'')) (Fin 20485) (PStr (lit ''ann'')) (PStr (lit ''page'')),
      StImage (PStr (lit ''https://x/bb'')) (Fin 10245) (PStr (lit ''ann'')) (PStr (lit ''page''))]"
  have key: "truthy ?key" by (simp add: lit_def)
  have a: "fetch_unsplash_images ?w ?s1 (lit ''boho'') 10 = (Inr ?images, ?s2)"
    using key by (rule example_fetch)
  have b: "?images \<noteq> []" by (simp add: six_urls_def)
  have "fst (score_all ?w ?s2 ?images) = ?scored"
    by (simp add: world_eval score_eval float_eval)
  then have c: "score_all ?w ?s2 ?images = (?scored, ?s3)" by (simp add: prod_eq_iff)
  have n: "\<forall>r\<in>set ?scored. score r \<noteq> Some NaN"
    by (simp add: scored_photo_def fetched_photo_def)
  have d: "rank ?scored = Inr (rev ?scored)"
    by (simp add: rank_eval scored_photo_def fetched_photo_def)
  have e: "mapE image_event (take 5 (rev ?scored)) = Inr ?shown"
    by (simp add: image_event_def scored_photo_def fetched_photo_def)
  have f: "\<forall>r\<in>set (take 5 (rev ?scored)). st_image ?w (url r) = None"
    by (simp add: world_eval)
  have g: "trace init = []" by (simp add: init_def)
  from display_top_five [of init ?w "lit ''boho''" ?images ?s2 ?scored ?s3] a b c n
  obtain ranked evs k where p: "rank ?scored = Inr ranked"
      "mapE image_event (take 5 ranked) = Inr evs"
      "filter is_image (drop (length (trace init))
         (trace (snd (process_topic ?w init (lit ''boho''))))) = take k evs"
      "(\<forall>r\<in>set (take 5 ranked). st_image ?w (url r) = None) \<longrightarrow>
         k = length evs \<and> fst (process_topic ?w init (lit ''boho'')) = Inr ()"
    by blast
  have r: "ranked = rev ?scored" using p(1) d by simp
  then have "evs = ?shown" using p(2) e by simp
  moreover have "k = length evs \<and> fst (process_topic ?w init (lit ''boho'')) = Inr ()"
    using p(4) f r by simp
  ultimately show ?thesis using p(3) g by simp
qed

text \<open>
  C5: when the download, the decoding or the forward pass raises, the scorer returns
  \<open>random.uniform(3, 7)\<close> instead: the float of \<open>3 + 4 * r\<close> for the next draw \<open>r\<close> of
  the generator, which lies between 3 and 7. The exception goes no further: whatever
  fails while scoring, a pass whose fetch returned a list, and in which \<open>st.image\<close>
  raises for none of the urls, ends normally.
\<close>

theorem scoring_failure_absorbed:
  "((get_content w (length (trace s)) image_url = Inl e \<or>
     (\<exists>c. get_content w (length (trace s)) image_url = Inr c \<and> open_rgb w c = Inl e) \<or>
     (\<exists>c i. get_content w (length (trace s)) image_url = Inr c \<and> open_rgb w c = Inr i \<and>
            clip_logit w i = Inl e)) \<longrightarrow>
    (\<exists>x. compute_aesthetic_score w s image_url =
           (Fin x, s\<lparr>trace := trace s @ [ImageRequest image_url], rng_pos := Suc (rng_pos s)\<rparr>) \<and>
         x = round_to_double (3 + 4 * (real (unat (random_bits w (rng_pos s))) / 2 ^ 53)) \<and>
         3 \<le> x \<and> x \<le> 7)) \<and>
   (fst (fetch_unsplash_images w (emit (StHeader topic) s0) topic 10) = Inr images \<and>
    (\<forall>r\<in>set images. st_image w (url r) = None) \<longrightarrow>
    fst (process_topic w s0 topic) = Inr ())"
  using scoring_failure_fallback [of w s image_url e] process_topic_no_abort [of w topic s0 images]
  by blast

theorem scoring_failure_absorbed_witness:
  "compute_aesthetic_score (example_world (PStr (lit ''key'')) [photo PNone (lit ''https://x/a'')]
        (\<lambda>i. Inl RuntimeError)) init (PStr (lit ''https://x/a'')) =
     (Fin 5, \<lparr>trace = [ImageRequest (PStr (lit ''https://x/a''))], rng_pos = 1\<rparr>) \<and>
   fst (process_topic (example_world (PStr (lit ''key'')) [photo PNone (lit ''https://x/a'')]
        (\<lambda>i. Inl RuntimeError)) init (lit ''boho'')) = Inr ()"
proof -
  let ?u = "lit ''https://x/a''"
  let ?w = "example_world (PStr (lit ''key'')) [photo PNone ?u] (\<lambda>i. Inl RuntimeError)"
  have a: "\<exists>c i. get_content ?w (length (trace init)) (PStr ?u) = Inr c \<and>
      open_rgb ?w c = Inr i \<and> clip_logit ?w i = Inl RuntimeError"
    by (simp add: world_eval)
  have b: "fst (fetch_unsplash_images ?w (emit (StHeader (lit ''boho'')) init) (lit ''boho'') 10) =
      Inr [fetched_photo ?u]"
    by (simp add: world_eval fetch_eval bindE_def)
  have c: "\<forall>r\<in>set [fetched_photo ?u]. st_image ?w (url r) = None"
    by (simp add: world_eval)
  have d: "round_to_double (3 + 4 * (real (unat (random_bits ?w (rng_pos init))) / 2 ^ 53)) = 5"
    by (simp add: world_eval float_eval)
  show ?thesis
    using scoring_failure_absorbed [of ?w init "PStr ?u" RuntimeError "lit ''boho''" init
        "[fetched_photo ?u]"] a b c d
    by (simp add: init_def)
qed

end
